theory Spec2Isabelle
  imports Complex_Main
begin

section \<open>Conventions of the embedding\<close>

text \<open>
  The Python sources under \<^verbatim>\<open>ml_training\<close> and \<^verbatim>\<open>services/ml_api\<close> are embedded
  function by function.  NumPy's \<^verbatim>\<open>float64\<close> values are read as real numbers (type
  \<^typ>\<open>real\<close>): rounding, overflow and NaN of IEEE arithmetic are outside the embedding.
  One effect of the format is kept, because a claim depends on it: \<^verbatim>\<open>np.exp\<close> underflows
  to \<open>0.0\<close> on a very negative argument.
  A Python \<^verbatim>\<open>str\<close> is a \<^typ>\<open>string\<close>, a list of code points below 256.
  Every \<^verbatim>\<open>raise\<close> of the sources, and every exception of a library call that the
  claims depend on, is a value \<open>Inl e\<close> of the result type \<open>error + 'a\<close>.
\<close>

datatype error =
    ModelNotFitted            \<comment> \<open>\<^verbatim>\<open>RuntimeError("Model not fitted.")\<close>\<close>
  | ZeroSizeReduction         \<comment> \<open>NumPy: maximum over an axis of length 0\<close>
  | IndexError                \<comment> \<open>an index past the end of an array or a frame\<close>
  | EmptyText                 \<comment> \<open>\<^verbatim>\<open>ValueError\<close>: text empty or whitespace only\<close>
  | DimensionMismatch         \<comment> \<open>scikit-learn: empty array, or incompatible dimensions\<close>
  | InvalidIPv6URL            \<comment> \<open>\<^verbatim>\<open>ValueError("Invalid IPv6 URL")\<close> of \<^verbatim>\<open>urlsplit\<close>\<close>
  | InvalidBracketedHost      \<comment> \<open>\<^verbatim>\<open>ValueError\<close> of \<^verbatim>\<open>_check_bracketed_host\<close>\<close>
  | PostsFileMissing string   \<comment> \<open>\<^verbatim>\<open>FileNotFoundError\<close> of \<^verbatim>\<open>_load_posts\<close>\<close>
  | MissingColumns string "string list"  \<comment> \<open>\<^verbatim>\<open>ValueError\<close> of \<^verbatim>\<open>ensure_columns\<close>\<close>
  | DuplicatePosts string     \<comment> \<open>\<^verbatim>\<open>ValueError\<close> of \<^verbatim>\<open>_assert_unique_posts\<close>\<close>

type_synonym matrix = "real list list"

section \<open>\<^verbatim>\<open>ml_training/utils.py\<close>: row-wise softmax\<close>

text \<open>
  \<^verbatim>\<open>np.max(arr, axis=1, keepdims=True)\<close> on one row.  The caller has excluded the empty
  row, on which NumPy raises.
\<close>

definition row_max :: "real list \<Rightarrow> real" where
  "row_max row = fold max (tl row) (hd row)"

text \<open>
  \<^verbatim>\<open>np.exp\<close> on a \<^verbatim>\<open>float64\<close>.  The least positive value of the format is \<open>2\<^sup>-\<^sup>1\<^sup>0\<^sup>7\<^sup>4\<close>; an
  exponential of at most half of it, that is an argument of at most \<open>- 1075 ln 2\<close> (about
  \<open>-745.13\<close>), is rounded to \<open>0.0\<close>.  Above that bound the result is read as the exact
  exponential.
\<close>

definition np_exp :: "real \<Rightarrow> real" where
  "np_exp x = (if x \<le> - 1075 * ln 2 then 0 else exp x)"

text \<open>\<^verbatim>\<open>np.clip(x, 1e-12, None)\<close>: a lower bound only.\<close>

definition clip_low :: "real \<Rightarrow> real" where
  "clip_low x = max x (1 / 10 ^ 12)"

text \<open>
  \<^verbatim>\<open>softmax_rows\<close>.  A matrix is the list of its rows.  The three intermediate arrays
  keep the names of the source.  A row without columns makes \<^verbatim>\<open>np.max\<close> raise
  (zero-size array to reduction operation maximum which has no identity).
\<close>

definition shifted_rows :: "matrix \<Rightarrow> matrix" where
  "shifted_rows arr = map (\<lambda>row. map (\<lambda>x. x - row_max row) row) arr"

definition exp_vals_rows :: "matrix \<Rightarrow> matrix" where
  "exp_vals_rows arr = map (map np_exp) (shifted_rows arr)"

definition sums_rows :: "matrix \<Rightarrow> real list" where
  "sums_rows arr = map (\<lambda>row. clip_low (sum_list row)) (exp_vals_rows arr)"

definition softmax_rows :: "matrix \<Rightarrow> error + matrix" where
  "softmax_rows arr =
     (if [] \<in> set arr then Inl ZeroSizeReduction
      else Inr (map2 (\<lambda>row s. map (\<lambda>e. e / s) row) (exp_vals_rows arr) (sums_rows arr)))"

section \<open>\<^verbatim>\<open>ml_training/models.py\<close>: the role composition model\<close>

text \<open>
  A fitted vectoriser as \<^verbatim>\<open>explain.py\<close> reads it: \<^verbatim>\<open>transform([text])\<close> is a sparse row
  (column index and value of every stored entry), \<^verbatim>\<open>get_feature_names_out()\<close> the list of
  feature names, whose length is the number of columns.
\<close>

record vectorizer =
  transform :: "string \<Rightarrow> (nat \<times> real) list"
  feature_names :: "string list"

text \<open>
  A fitted \<^verbatim>\<open>Pipeline([("tfidf", tfidf), ("model", MultiOutputRegressor(RidgeCV))])\<close>: the
  fitted vectoriser maps a text to its feature vector, and every role bucket has one
  fitted linear regressor (\<^verbatim>\<open>coef_\<close>, \<^verbatim>\<open>intercept_\<close>).  Fitting itself is scikit-learn's and
  is not embedded; a fitted pipeline is a value of this record.  The vectoriser appears
  twice: \<open>role_tfidf\<close> is the dense row that the pipeline hands to the regressors, and
  \<open>role_vectorizer\<close> what \<^verbatim>\<open>get_tfidf()\<close> gives to \<^verbatim>\<open>explain.py\<close>.
\<close>

record ridge =
  coef :: "real list"
  intercept :: real

record role_pipeline =
  role_tfidf :: "string \<Rightarrow> real list"
  role_vectorizer :: vectorizer
  role_estimators :: "ridge list"

text \<open>\<^verbatim>\<open>RoleCompositionModel\<close>: \<^verbatim>\<open>self.pipeline\<close> is \<^verbatim>\<open>None\<close> until \<^verbatim>\<open>fit\<close> has run.\<close>

record role_composition_model =
  pipeline :: "role_pipeline option"

definition ridge_predict :: "ridge \<Rightarrow> real list \<Rightarrow> real" where
  "ridge_predict e x = sum_list (map2 (*) (coef e) x) + intercept e"

text \<open>\<^verbatim>\<open>self.pipeline.predict(X)\<close>: one row per text, one column per regressor.\<close>

definition pipeline_predict :: "role_pipeline \<Rightarrow> string list \<Rightarrow> matrix" where
  "pipeline_predict p X =
     map (\<lambda>text. map (\<lambda>e. ridge_predict e (role_tfidf p text)) (role_estimators p)) X"

definition predict :: "role_composition_model \<Rightarrow> string list \<Rightarrow> error + matrix" where
  "predict m X =
     (case pipeline m of
        None \<Rightarrow> Inl ModelNotFitted
      | Some p \<Rightarrow> softmax_rows (pipeline_predict p X))"

definition predict_raw :: "role_composition_model \<Rightarrow> string list \<Rightarrow> error + matrix" where
  "predict_raw m X =
     (case pipeline m of
        None \<Rightarrow> Inl ModelNotFitted
      | Some p \<Rightarrow> Inr (pipeline_predict p X))"

text \<open>
  A model that \<^verbatim>\<open>fit\<close> has returned: the pipeline is set, and it has a regressor for at
  least one role bucket (scikit-learn refuses to fit on a target with no column).
\<close>

definition fitted :: "role_composition_model \<Rightarrow> bool" where
  "fitted m = (case pipeline m of None \<Rightarrow> False | Some p \<Rightarrow> role_estimators p \<noteq> [])"

section \<open>\<^verbatim>\<open>services/ml_api/predictor.py\<close>: the artifacts of the serving facade\<close>

text \<open>
  The narrative model is \<^verbatim>\<open>OneVsRestClassifier(LogisticRegression(solver="liblinear"))\<close>
  behind a vectoriser.  Each fitted label estimator is a binary logistic regression, whose
  \<^verbatim>\<open>predict_proba\<close> is the logistic sigmoid of the decision function, or scikit-learn's
  constant predictor for a label with a single class in training (which has no \<^verbatim>\<open>coef_\<close>).
  As in the role pipeline, \<open>narr_tfidf\<close> is the dense row of the vectoriser and
  \<open>narr_vectorizer\<close> the vectoriser as \<^verbatim>\<open>explain.py\<close> reads it.
\<close>

datatype binary_estimator =
    LogisticRegression "real list" real   \<comment> \<open>\<^verbatim>\<open>coef_\<close>, \<^verbatim>\<open>intercept_\<close>\<close>
  | ConstantPredictor bool                \<comment> \<open>the one label value seen in training\<close>

record narrative_pipeline =
  narr_tfidf :: "string \<Rightarrow> real list"
  narr_vectorizer :: vectorizer
  narr_estimators :: "binary_estimator list"

text \<open>
  The risk model is a calibrated classifier behind a vectoriser; the facade calls its
  \<^verbatim>\<open>predict_proba\<close> and reads \<^verbatim>\<open>classes_\<close> through \<^verbatim>\<open>getattr\<close> with a default.  The result
  of \<^verbatim>\<open>get_vectorizer(self.risk_model)\<close> and of \<^verbatim>\<open>choose_risk_coefficients(clf, "Harmful")\<close>
  depend on the loaded artifact only and are fields of the record (\<open>None\<close> where the
  source gets \<^verbatim>\<open>None\<close>).
\<close>

record risk_pipeline =
  risk_predict_proba :: "string \<Rightarrow> real list"
  risk_classes :: "string list option"
  risk_vectorizer :: "vectorizer option"
  risk_coefficients :: "real list option"

text \<open>The retriever artifacts: vectoriser, training matrix, index table.\<close>

record index_row =
  ix_company :: string
  ix_post_url :: string

record retriever =
  ret_vectorizer :: "string \<Rightarrow> real list"
  ret_matrix :: matrix
  ret_index :: "index_row list"

record predictor =
  role_buckets :: "string list"
  narrative_labels :: "string list"
  narrative_threshold :: real
  role_model :: role_composition_model
  narrative_model :: narrative_pipeline
  risk_model :: risk_pipeline
  retriever :: "retriever option"

subsection \<open>Python dictionaries\<close>

text \<open>
  A \<^verbatim>\<open>dict\<close> keeps its keys in insertion order; assigning to a key that is present
  replaces the value in place.
\<close>

type_synonym ('k, 'v) dict = "('k \<times> 'v) list"

fun dict_set :: "('k, 'v) dict \<Rightarrow> 'k \<Rightarrow> 'v \<Rightarrow> ('k, 'v) dict" where
  "dict_set [] k v = [(k, v)]"
| "dict_set ((k', v') # d) k v =
     (if k' = k then (k, v) # d else (k', v') # dict_set d k v)"

definition dict_get :: "('k, 'v) dict \<Rightarrow> 'k \<Rightarrow> 'v \<Rightarrow> 'v" where
  "dict_get d k dflt = (case map_of d k of None \<Rightarrow> dflt | Some v \<Rightarrow> v)"

subsection \<open>\<^verbatim>\<open>Predictor._role_distribution\<close>\<close>

text \<open>\<^verbatim>\<open>np.isclose(a, b)\<close> with its default tolerances \<^verbatim>\<open>rtol=1e-05, atol=1e-08\<close>.\<close>

definition isclose :: "real \<Rightarrow> real \<Rightarrow> bool" where
  "isclose a b = (\<bar>a - b\<bar> \<le> 1 / 10 ^ 8 + (1 / 10 ^ 5) * \<bar>b\<bar>)"

text \<open>\<^verbatim>\<open>scipy.special.softmax(x, axis=1)\<close> on a matrix with one row: no clipping.\<close>

definition scipy_softmax :: "real list \<Rightarrow> error + real list" where
  "scipy_softmax row =
     (if row = [] then Inl ZeroSizeReduction
      else let exp_x_shifted = map (\<lambda>x. np_exp (x - row_max row)) row
           in Inr (map (\<lambda>e. e / sum_list exp_x_shifted) exp_x_shifted))"

text \<open>
  The dictionary comprehension \<^verbatim>\<open>{bucket: float(probs[0, idx]) for idx, bucket in
  enumerate(self.role_buckets)}\<close>; an index past the row raises.
\<close>

definition dist_of_probs :: "string list \<Rightarrow> real list \<Rightarrow> error + (string, real) dict" where
  "dist_of_probs buckets probs =
     (if length buckets \<le> length probs
      then Inr (fold (\<lambda>(idx, bucket) d. dict_set d bucket (probs ! idx))
                  (enumerate 0 buckets) [])
      else Inl IndexError)"

text \<open>
  \<^verbatim>\<open>raw_preds = self.role_model.predict([text]).reshape(1, -1)\<close>: the rows of the
  prediction laid out as one row.
\<close>

definition role_distribution :: "predictor \<Rightarrow> string \<Rightarrow> error + (string, real) dict" where
  "role_distribution P text =
     (case predict (role_model P) [text] of
        Inl e \<Rightarrow> Inl e
      | Inr preds \<Rightarrow>
          (let raw_preds = concat preds in
           case (if (\<exists>x \<in> set raw_preds. x < 0) \<or> \<not> isclose (sum_list raw_preds) 1
                 then scipy_softmax raw_preds
                 else Inr raw_preds) of
             Inl e \<Rightarrow> Inl e
           | Inr probs \<Rightarrow> dist_of_probs (role_buckets P) probs))"

subsection \<open>\<^verbatim>\<open>Predictor._narratives\<close>\<close>

text \<open>The logistic sigmoid, \<^verbatim>\<open>scipy.special.expit\<close>.\<close>

definition expit :: "real \<Rightarrow> real" where
  "expit z = 1 / (1 + exp (- z))"

definition decision_function :: "real list \<Rightarrow> real \<Rightarrow> real list \<Rightarrow> real" where
  "decision_function w b x = sum_list (map2 (*) w x) + b"

text \<open>The probability of the positive class, \<^verbatim>\<open>e.predict_proba(X)[:, 1]\<close>.\<close>

fun positive_proba :: "binary_estimator \<Rightarrow> real list \<Rightarrow> real" where
  "positive_proba (LogisticRegression w b) x = expit (decision_function w b x)"
| "positive_proba (ConstantPredictor y) x = (if y then 1 else 0)"

text \<open>
  \<^verbatim>\<open>OneVsRestClassifier.predict_proba\<close> on one text, for a multilabel target: one column
  per label estimator, not normalised; with a single estimator scikit-learn returns the
  two columns \<open>1 - y\<close> and \<open>y\<close>.
\<close>

definition predict_proba :: "narrative_pipeline \<Rightarrow> string \<Rightarrow> real list" where
  "predict_proba M text =
     (let Y = map (\<lambda>e. positive_proba e (narr_tfidf M text)) (narr_estimators M)
      in if length (narr_estimators M) = 1 then map (\<lambda>y. 1 - y) Y @ Y else Y)"

text \<open>The inner dictionary \<^verbatim>\<open>{"prob": prob, "flag": flag}\<close>.\<close>

record narrative_entry =
  prob :: real
  flag :: bool

definition narratives :: "predictor \<Rightarrow> string \<Rightarrow> error + (string, narrative_entry) dict" where
  "narratives P text =
     (let probs = predict_proba (narrative_model P) text in
      if length (narrative_labels P) \<le> length probs
      then Inr (fold (\<lambda>(idx, label) results.
                   dict_set results label
                     \<lparr>prob = probs ! idx, flag = (1 / 10 \<le> probs ! idx)\<rparr>)
                 (enumerate 0 (narrative_labels P)) [])
      else Inl IndexError)"

subsection \<open>\<^verbatim>\<open>evaluate_narrative_model\<close> (\<^verbatim>\<open>ml_training/eval.py\<close>) and its call\<close>

text \<open>\<^verbatim>\<open>y_pred = (y_prob >= threshold).astype(int)\<close>, one row per test text.\<close>

definition narrative_y_pred :: "narrative_pipeline \<Rightarrow> string list \<Rightarrow> real \<Rightarrow> nat list list" where
  "narrative_y_pred M X threshold =
     map (\<lambda>text. map (\<lambda>p. if threshold \<le> p then 1 else 0) (predict_proba M text)) X"

text \<open>
  \<^verbatim>\<open>train_all.main\<close> calls \<^verbatim>\<open>evaluate_narrative_model(..., threshold=0.5, ...)\<close>.
\<close>

definition reporting_y_pred :: "narrative_pipeline \<Rightarrow> string list \<Rightarrow> nat list list" where
  "reporting_y_pred M X = narrative_y_pred M X (1 / 2)"

subsection \<open>\<^verbatim>\<open>Predictor._risk_model_preds\<close>\<close>

definition expected_classes :: "string list" where
  "expected_classes = [''Helpful'', ''Harmless'', ''Harmful'']"

text \<open>
  \<^verbatim>\<open>prob_map\<close>: every expected class starts at \<open>0.0\<close>, then each pair of
  \<^verbatim>\<open>zip(model_classes, probs)\<close> is assigned in turn.
\<close>

definition risk_prob_map :: "string list \<Rightarrow> real list \<Rightarrow> (string, real) dict" where
  "risk_prob_map model_classes probs =
     fold (\<lambda>(cls, p) prob_map. dict_set prob_map cls p) (zip model_classes probs)
       (map (\<lambda>label. (label, 0)) expected_classes)"

text \<open>\<^verbatim>\<open>np.argmax\<close>: the first index of the maximum; it raises on an empty array.\<close>

definition argmax :: "real list \<Rightarrow> error + nat" where
  "argmax xs =
     (if xs = [] then Inl ZeroSizeReduction
      else Inr (length (takeWhile (\<lambda>x. x \<noteq> row_max xs) xs)))"

definition risk_model_preds :: "predictor \<Rightarrow> string \<Rightarrow> error + (string, real) dict \<times> string" where
  "risk_model_preds P text =
     (let probs = risk_predict_proba (risk_model P) text;
          model_classes = (case risk_classes (risk_model P) of
                             None \<Rightarrow> [''Helpful'', ''Harmless'', ''Harmful'']
                           | Some cs \<Rightarrow> cs);
          prob_map = risk_prob_map model_classes probs
      in case argmax probs of
           Inl e \<Rightarrow> Inl e
         | Inr pred_idx \<Rightarrow>
             if model_classes = [] then Inr (prob_map, ''Helpful'')
             else if pred_idx < length model_classes
             then Inr (prob_map, model_classes ! pred_idx)
             else Inl IndexError)"

subsection \<open>\<^verbatim>\<open>Predictor._risk_rule_based\<close>\<close>

definition harmful_labels :: "string list" where
  "harmful_labels = [''toxic_culture'', ''elitism'', ''credibility_overclaim'',
     ''culture_misalignment'']"

text \<open>
  The truth value of \<^verbatim>\<open>narratives.get(lbl, {}).get("flag")\<close>: a missing label gives
  \<^verbatim>\<open>None\<close>, which counts as false.
\<close>

definition flagged :: "(string, narrative_entry) dict \<Rightarrow> string \<Rightarrow> bool" where
  "flagged narrs lbl = (case map_of narrs lbl of None \<Rightarrow> False | Some e \<Rightarrow> flag e)"

definition risk_rule_based :: "(string, narrative_entry) dict \<Rightarrow> string" where
  "risk_rule_based narrs =
     (if list_ex (\<lambda>lbl. flagged narrs lbl) harmful_labels then ''Harmful''
      else if flagged narrs ''burnout'' then ''Harmless''
      else ''Helpful'')"

subsection \<open>Python strings, slices and sorting\<close>

text \<open>
  \<^verbatim>\<open>str.isspace\<close> on the code points below 256, and \<^verbatim>\<open>str.strip()\<close>.
\<close>

definition py_isspace :: "char \<Rightarrow> bool" where
  "py_isspace c = (of_char c \<in> {9, 10, 11, 12, 13, 28, 29, 30, 31, 32, 133, 160 :: nat})"

definition strip :: "string \<Rightarrow> string" where
  "strip s = rev (dropWhile py_isspace (rev (dropWhile py_isspace s)))"

text \<open>The slice \<^verbatim>\<open>xs[:k]\<close>; a negative \<open>k\<close> counts from the end.\<close>

definition py_take :: "int \<Rightarrow> 'a list \<Rightarrow> 'a list" where
  "py_take k xs = (if 0 \<le> k then take (nat k) xs else take (length xs - nat (- k)) xs)"

text \<open>
  \<^verbatim>\<open>np.argsort(a)\<close> returns the indices that sort \<open>a\<close> in ascending order.  Its default
  sort is not stable: in which order the indices of equal values come out depends on the
  sort kernel that NumPy selects for the machine and the length of the array.  So
  \<^verbatim>\<open>np.argsort\<close> is a parameter \<open>np_argsort\<close> of the functions that call it, and
  \<open>is_argsort a p\<close> says what NumPy promises of its result \<open>p\<close> on \<open>a\<close>: it holds
  every index of \<open>a\<close> once, and the values along it ascend.
\<close>

definition is_argsort :: "real list \<Rightarrow> nat list \<Rightarrow> bool" where
  "is_argsort a p =
     (distinct p \<and> set p = set [0 ..< length a] \<and> sorted (map (\<lambda>i. a ! i) p))"

text \<open>
  \<^verbatim>\<open>round(x, ndigits)\<close> on an exact real: to the nearest multiple of \<open>10\<^sup>-\<^sup>n\<close>, a tie to
  the even neighbour.
\<close>

definition py_round :: "real \<Rightarrow> nat \<Rightarrow> real" where
  "py_round x ndigits =
     (let s = x * 10 ^ ndigits; f = \<lfloor>s\<rfloor>; d = s - of_int f
      in of_int (if d < 1 / 2 then f
                 else if 1 / 2 < d then f + 1
                 else if even f then f else f + 1) / 10 ^ ndigits)"

subsection \<open>\<^verbatim>\<open>explain.py\<close>: \<^verbatim>\<open>top_contributions_from_vec\<close>\<close>

text \<open>
  \<open>vec\<close> is the sparse row (\<^verbatim>\<open>indices\<close> and \<^verbatim>\<open>data\<close> side by side); \<^verbatim>\<open>vec.shape[1]\<close> is
  the number of feature names.  \<^verbatim>\<open>coefs[indices]\<close> raises on an index past the end.
\<close>

definition top_contributions_from_vec ::
  "(real list \<Rightarrow> nat list) \<Rightarrow> (nat \<times> real) list \<Rightarrow> real list \<Rightarrow> string list \<Rightarrow> int \<Rightarrow>
     error + (string \<times> real) list" where
  "top_contributions_from_vec np_argsort vec coefs names top_k =
     (if length names \<noteq> length coefs then Inr []
      else if \<exists>i \<in> set (map fst vec). length coefs \<le> i then Inl IndexError
      else let contributions = map (\<lambda>(i, d). d * coefs ! i) vec in
        if contributions = [] then Inr []
        else let order = py_take top_k (rev (np_argsort (map abs contributions)))
             in Inr (map (\<lambda>i. (names ! fst (vec ! i), contributions ! i)) order))"

subsection \<open>The evidence: \<^verbatim>\<open>_risk_top_ngrams\<close>, \<^verbatim>\<open>_narrative_top_ngrams\<close>, \<^verbatim>\<open>_role_top_ngrams\<close>\<close>

definition risk_top_ngrams_of ::
  "(real list \<Rightarrow> nat list) \<Rightarrow> predictor \<Rightarrow> string \<Rightarrow> error + (string \<times> real) list" where
  "risk_top_ngrams_of np_argsort P text =
     (case risk_vectorizer (risk_model P) of
        None \<Rightarrow> Inr []
      | Some vec \<Rightarrow>
          (case risk_coefficients (risk_model P) of
             None \<Rightarrow> Inr []
           | Some coefs \<Rightarrow>
               top_contributions_from_vec np_argsort (transform vec text) coefs
                 (feature_names vec) 8))"

text \<open>
  \<^verbatim>\<open>_narrative_top_ngrams\<close>: the loop over \<^verbatim>\<open>zip(self.narrative_labels, clf.estimators_)\<close>;
  an estimator without \<^verbatim>\<open>coef_\<close> is skipped.
\<close>

fun narrative_top_loop ::
  "(real list \<Rightarrow> nat list) \<Rightarrow> (nat \<times> real) list \<Rightarrow> string list \<Rightarrow>
     (string \<times> binary_estimator) list \<Rightarrow> (string, (string \<times> real) list) dict \<Rightarrow>
     error + (string, (string \<times> real) list) dict" where
  "narrative_top_loop np_argsort vec_mat names [] out = Inr out"
| "narrative_top_loop np_argsort vec_mat names ((label, LogisticRegression w b) # rest) out =
     (case top_contributions_from_vec np_argsort vec_mat w names 6 of
        Inl e \<Rightarrow> Inl e
      | Inr contribs \<Rightarrow> narrative_top_loop np_argsort vec_mat names rest (dict_set out label contribs))"
| "narrative_top_loop np_argsort vec_mat names ((label, ConstantPredictor y) # rest) out =
     narrative_top_loop np_argsort vec_mat names rest out"

definition narrative_top_ngrams_of ::
  "(real list \<Rightarrow> nat list) \<Rightarrow> predictor \<Rightarrow> string \<Rightarrow>
     error + (string, (string \<times> real) list) dict" where
  "narrative_top_ngrams_of np_argsort P text =
     (let vec = narr_vectorizer (narrative_model P)
      in narrative_top_loop np_argsort (transform vec text) (feature_names vec)
           (zip (narrative_labels P) (narr_estimators (narrative_model P))) [])"

text \<open>
  \<^verbatim>\<open>_role_top_ngrams\<close>.  \<^verbatim>\<open>get_tfidf()\<close> raises on a model that is not fitted.  The
  comprehension \<^verbatim>\<open>{self.role_buckets[i]: est for i, est in enumerate(model.estimators_)}\<close>
  raises when there are more regressors than role buckets.  Then the loop over
  \<^verbatim>\<open>top_roles\<close>; a role without a regressor is skipped.
\<close>

fun role_top_loop ::
  "(real list \<Rightarrow> nat list) \<Rightarrow> (nat \<times> real) list \<Rightarrow> string list \<Rightarrow>
     (string, ridge) dict \<Rightarrow> string list \<Rightarrow> (string, (string \<times> real) list) dict \<Rightarrow>
     error + (string, (string \<times> real) list) dict" where
  "role_top_loop np_argsort vec_mat names bucket_to_est [] out = Inr out"
| "role_top_loop np_argsort vec_mat names bucket_to_est (role # rest) out =
     (case map_of bucket_to_est role of
        None \<Rightarrow> role_top_loop np_argsort vec_mat names bucket_to_est rest out
      | Some est \<Rightarrow>
          (case top_contributions_from_vec np_argsort vec_mat (coef est) names 6 of
             Inl e \<Rightarrow> Inl e
           | Inr contribs \<Rightarrow>
               role_top_loop np_argsort vec_mat names bucket_to_est rest
                 (dict_set out role contribs)))"

definition role_top_ngrams_of ::
  "(real list \<Rightarrow> nat list) \<Rightarrow> predictor \<Rightarrow> string \<Rightarrow> string list \<Rightarrow>
     error + (string, (string \<times> real) list) dict" where
  "role_top_ngrams_of np_argsort P text top_roles =
     (case pipeline (role_model P) of
        None \<Rightarrow> Inl ModelNotFitted
      | Some p \<Rightarrow>
          if length (role_buckets P) < length (role_estimators p) then Inl IndexError
          else let bucket_to_est =
                     fold (\<lambda>(i, est) d. dict_set d (role_buckets P ! i) est)
                       (enumerate 0 (role_estimators p)) []
               in role_top_loop np_argsort (transform (role_vectorizer p) text)
                    (feature_names (role_vectorizer p)) bucket_to_est top_roles [])"

subsection \<open>\<^verbatim>\<open>Predictor._entropy\<close>\<close>

definition entropy :: "(string, real) dict \<Rightarrow> real" where
  "entropy role_dist =
     (let probs = map (\<lambda>v. min (max v (1 / 10 ^ 12)) 1) (map snd role_dist);
          probs' = map (\<lambda>p. p / sum_list probs) probs
      in - sum_list (map (\<lambda>p. p * log 2 p) probs'))"

subsection \<open>\<^verbatim>\<open>schemas.AnalyzeRequest\<close> and \<^verbatim>\<open>Predictor.analyze\<close>\<close>

record analyze_request =
  post_text :: string
  company_hint :: "string option"


text \<open>
  The response of \<^verbatim>\<open>analyze\<close>.  Left out: \<^verbatim>\<open>primary_risk_reason\<close> (a formatted float) and
  \<^verbatim>\<open>meta\<close> (clock and random identifier); neither is read by \<^verbatim>\<open>compare\<close>, and neither
  raises.
\<close>

record analysis =
  input_text :: string
  audience :: "string option"
  role_distribution_top5 :: "(string \<times> real) list"
  role_distribution_all :: "(string \<times> real) list"
  confidence_entropy :: real
  risk_class :: string
  risk_probs :: "(string, real) dict"
  risk_level :: string
  narrative_probs :: "(string, real) dict"
  narrative_flags :: "(string, bool) dict"
  risk_top_ngrams :: "(string \<times> real) list"
  narrative_top_ngrams :: "(string, (string \<times> real) list) dict"
  role_top_ngrams :: "(string, (string \<times> real) list) dict"

definition risk_level_of :: "(string, real) dict \<Rightarrow> string" where
  "risk_level_of probs =
     (let max_prob = (if probs = [] then 0 else row_max (map snd probs)) in
      if 3 / 4 \<le> max_prob then ''High''
      else if 55 / 100 \<le> max_prob then ''Medium''
      else ''Low'')"

definition analyze ::
  "(real list \<Rightarrow> nat list) \<Rightarrow> predictor \<Rightarrow> analyze_request \<Rightarrow> error + analysis" where
  "analyze np_argsort P request =
     (let text = strip (post_text request) in
      if text = [] then Inl EmptyText
      else case narratives P text of Inl e \<Rightarrow> Inl e | Inr narrs \<Rightarrow>
      case role_distribution P text of Inl e \<Rightarrow> Inl e | Inr role_dist \<Rightarrow>
      (let role_all = map (\<lambda>(k, v). (k, py_round (v * 100) 4)) role_dist;
           role_top5 = take 5 (sort_key (\<lambda>x. - snd x) role_all)
       in
      case risk_model_preds P text of Inl e \<Rightarrow> Inl e | Inr (probs, risk_pred) \<Rightarrow>
      case risk_top_ngrams_of np_argsort P text of Inl e \<Rightarrow> Inl e | Inr risk_top \<Rightarrow>
      case narrative_top_ngrams_of np_argsort P text of Inl e \<Rightarrow> Inl e | Inr narrative_top \<Rightarrow>
      case role_top_ngrams_of np_argsort P text (map fst role_top5) of
        Inl e \<Rightarrow> Inl e
      | Inr role_top \<Rightarrow>
          Inr \<lparr>input_text = text,
               audience = (case company_hint request of
                             None \<Rightarrow> None
                           | Some h \<Rightarrow> if h = [] then None else Some h),
               role_distribution_top5 = role_top5,
               role_distribution_all = role_all,
               confidence_entropy = entropy role_dist,
               risk_class = risk_rule_based narrs,
               risk_probs = probs,
               risk_level = risk_level_of probs,
               narrative_probs = map (\<lambda>(k, v). (k, prob v)) narrs,
               narrative_flags = map (\<lambda>(k, v). (k, flag v)) narrs,
               risk_top_ngrams = risk_top,
               narrative_top_ngrams = narrative_top,
               role_top_ngrams = role_top\<rparr>))"

subsection \<open>\<^verbatim>\<open>Predictor.compare\<close> and \<^verbatim>\<open>Predictor._compare_top_phrases\<close>\<close>

definition compare_top_phrases ::
  "(string \<times> real) list \<Rightarrow> (string \<times> real) list \<Rightarrow> (string \<times> real) list" where
  "compare_top_phrases baseline_phrases variant_phrases =
     (let merged = fold (\<lambda>(ngram, weight) m. dict_set m ngram (dict_get m ngram 0 - weight))
                     baseline_phrases [];
          merged = fold (\<lambda>(ngram, weight) m. dict_set m ngram (dict_get m ngram 0 + weight))
                     variant_phrases merged
      in take 10 (sort_key (\<lambda>x. - \<bar>snd x\<bar>) merged))"



subsection \<open>Consistency of the loaded artifacts\<close>

text \<open>
  What \<^verbatim>\<open>analyze\<close> needs of the artifacts to answer for a text without an exception: the
  role model is fitted and has as many regressors as the metadata has role buckets (fewer
  make \<^verbatim>\<open>_role_distribution\<close> raise, more \<^verbatim>\<open>_role_top_ngrams\<close>); the narrative model
  returns a probability for every narrative label; the risk model returns a probability
  for each of its classes; and the sparse rows of the three vectorisers stay within
  their columns, as every row of a sparse matrix does.
\<close>

definition within_columns :: "vectorizer \<Rightarrow> string \<Rightarrow> bool" where
  "within_columns vec text = list_all (\<lambda>(i, d). i < length (feature_names vec)) (transform vec text)"

definition artifacts_consistent :: "predictor \<Rightarrow> string \<Rightarrow> bool" where
  "artifacts_consistent P text =
     ((case pipeline (role_model P) of
         None \<Rightarrow> False
       | Some p \<Rightarrow> role_estimators p \<noteq> [] \<and>
                   length (role_buckets P) = length (role_estimators p) \<and>
                   within_columns (role_vectorizer p) text) \<and>
      length (narrative_labels P) \<le> length (predict_proba (narrative_model P) text) \<and>
      within_columns (narr_vectorizer (narrative_model P)) text \<and>
      risk_predict_proba (risk_model P) text \<noteq> [] \<and>
      (case risk_classes (risk_model P) of
         None \<Rightarrow> length (risk_predict_proba (risk_model P) text) \<le> 3
       | Some cs \<Rightarrow> cs = [] \<or> length (risk_predict_proba (risk_model P) text) \<le> length cs) \<and>
      (case risk_vectorizer (risk_model P) of
         None \<Rightarrow> True
       | Some vec \<Rightarrow> within_columns vec text))"

section \<open>Retrieval: \<^verbatim>\<open>ml_training/retriever.py\<close> and \<^verbatim>\<open>Predictor._similar_posts\<close>\<close>

text \<open>
  \<^verbatim>\<open>sklearn.metrics.pairwise.cosine_similarity(query_vec, matrix).ravel()\<close> on dense rows:
  both sides are scaled to unit Euclidean norm, a zero norm being replaced by 1, and
  multiplied.  scikit-learn refuses an empty array and rows of another length than the
  query.
\<close>

definition l2_normalize :: "real list \<Rightarrow> real list" where
  "l2_normalize x =
     (let norm = sqrt (sum_list (map (\<lambda>v. v * v) x));
          norm = (if norm = 0 then 1 else norm)
      in map (\<lambda>v. v / norm) x)"

definition cosine_similarity :: "real list \<Rightarrow> matrix \<Rightarrow> error + real list" where
  "cosine_similarity query_vec m =
     (if query_vec = [] \<or> m = [] \<or> (\<exists>row \<in> set m. length row \<noteq> length query_vec)
      then Inl DimensionMismatch
      else Inr (map (\<lambda>row. sum_list (map2 (*) (l2_normalize query_vec) (l2_normalize row))) m))"

text \<open>\<^verbatim>\<open>top_idx = np.argsort(sims)[::-1][:k]\<close>.\<close>

definition top_idx :: "(real list \<Rightarrow> nat list) \<Rightarrow> real list \<Rightarrow> int \<Rightarrow> nat list" where
  "top_idx np_argsort sims k = py_take k (rev (np_argsort sims))"

record similar_post =
  sp_company :: string
  sp_post_url :: string
  sp_post_text_snippet :: string
  sp_score :: real

text \<open>\<^verbatim>\<open>index_df.iloc[int(idx)]\<close> raises on a row number past the index table.\<close>

definition similar_posts ::
  "(real list \<Rightarrow> nat list) \<Rightarrow> predictor \<Rightarrow> string \<Rightarrow> int \<Rightarrow> error + similar_post list" where
  "similar_posts np_argsort P text k =
     (case retriever P of
        None \<Rightarrow> Inr []
      | Some r \<Rightarrow>
          (case cosine_similarity (ret_vectorizer r text) (ret_matrix r) of
             Inl e \<Rightarrow> Inl e
           | Inr sims \<Rightarrow>
               if \<exists>idx \<in> set (top_idx np_argsort sims k). length (ret_index r) \<le> idx
               then Inl IndexError
               else Inr (map (\<lambda>idx.
                       \<lparr>sp_company = ix_company (ret_index r ! idx),
                        sp_post_url = ix_post_url (ret_index r ! idx),
                        sp_post_text_snippet = take 160 (ix_post_url (ret_index r ! idx)),
                        sp_score = sims ! idx\<rparr>)
                     (top_idx np_argsort sims k))))"

text \<open>
  \<^verbatim>\<open>get_similar_posts\<close>, on the artifacts it has loaded from the model directory: each
  result is the row of the index table with its similarity.
\<close>

definition get_similar_posts ::
  "(real list \<Rightarrow> nat list) \<Rightarrow> retriever \<Rightarrow> string \<Rightarrow> int \<Rightarrow> error + (index_row \<times> real) list" where
  "get_similar_posts np_argsort r draft_text k =
     (if draft_text = [] \<or> strip draft_text = [] then Inl EmptyText
      else case cosine_similarity (ret_vectorizer r draft_text) (ret_matrix r) of
             Inl e \<Rightarrow> Inl e
           | Inr similarities \<Rightarrow>
               if \<exists>idx \<in> set (top_idx np_argsort similarities k). length (ret_index r) \<le> idx
               then Inl IndexError
               else Inr (map (\<lambda>idx. (ret_index r ! idx, similarities ! idx))
                           (top_idx np_argsort similarities k)))"

section \<open>\<^verbatim>\<open>ml_training/utils.py\<close>: \<^verbatim>\<open>canonicalize_url\<close>\<close>

text \<open>
  \<^verbatim>\<open>canonicalize_url\<close> rests on \<^verbatim>\<open>urlsplit\<close> and \<^verbatim>\<open>urlunsplit\<close> of the standard library
  (\<^verbatim>\<open>urllib/parse.py\<close>), embedded here on strings of code points below 256.  On such
  strings \<^verbatim>\<open>_checknetloc\<close> never raises (no such character normalises under NFKC to one of
  \<^verbatim>\<open>/?#@:\<close>), so it is left out.

  The two functions differ between the releases of CPython 3.11 and 3.12, and the
  repository does not fix one.  The record \<open>stdlib\<close> holds what differs:
    \<^item> \<open>lstrip_c0\<close>: \<^verbatim>\<open>urlsplit\<close> strips leading C0 control characters and spaces (from 3.11.4
      on; not in 3.11.2);
    \<^item> \<open>netloc_ok\<close>: the test that \<^verbatim>\<open>urlsplit\<close> applies to a network location with both
      brackets.  There is none in 3.11.2; 3.11.10 applies \<^verbatim>\<open>_check_bracketed_host\<close> to the
      text between the brackets, later releases \<^verbatim>\<open>_check_bracketed_netloc\<close> to the whole.
      Both go through \<^verbatim>\<open>ipaddress\<close> and a regular expression, which are not embedded;
    \<^item> \<open>uses_netloc\<close>: the list of that name (3.12 has one scheme more);
    \<^item> \<open>patched_urlunsplit\<close>: \<^verbatim>\<open>urlunsplit\<close> writes the two slashes also before an empty
      network location when the path begins with two slashes (3.11.10), where the older
      \<^verbatim>\<open>urlunsplit\<close> (3.11.2, 3.12.3) leaves them out.
\<close>

record stdlib =
  lstrip_c0 :: bool
  netloc_ok :: "string \<Rightarrow> bool"
  uses_netloc :: "string list"
  patched_urlunsplit :: bool

text \<open>The characters \<^verbatim>\<open>urlsplit\<close> strips on the left, and those it removes everywhere.\<close>

definition c0_control_or_space :: "char \<Rightarrow> bool" where
  "c0_control_or_space c = (of_char c \<le> (32 :: nat))"

definition unsafe_url_byte :: "char \<Rightarrow> bool" where
  "unsafe_url_byte c = (of_char c \<in> {9, 10, 13 :: nat})"

text \<open>\<^verbatim>\<open>c.isascii() and c.isalpha()\<close>, and membership in \<^verbatim>\<open>scheme_chars\<close>.\<close>

definition ascii_alpha :: "char \<Rightarrow> bool" where
  "ascii_alpha c = (let n = of_char c :: nat in (65 \<le> n \<and> n \<le> 90) \<or> (97 \<le> n \<and> n \<le> 122))"

definition scheme_char :: "char \<Rightarrow> bool" where
  "scheme_char c =
     (let n = of_char c :: nat
      in ascii_alpha c \<or> (48 \<le> n \<and> n \<le> 57) \<or> n = 43 \<or> n = 45 \<or> n = 46)"

text \<open>\<^verbatim>\<open>str.lower()\<close> on code points below 256.\<close>

definition py_lower :: "char \<Rightarrow> char" where
  "py_lower c =
     (let n = of_char c :: nat
      in if (65 \<le> n \<and> n \<le> 90) \<or> (192 \<le> n \<and> n \<le> 214) \<or> (216 \<le> n \<and> n \<le> 222)
         then char_of (n + 32) else c)"

definition lower :: "string \<Rightarrow> string" where
  "lower s = map py_lower s"

text \<open>The list \<^verbatim>\<open>uses_netloc\<close> of CPython 3.11.\<close>

definition uses_netloc_3_11 :: "string list" where
  "uses_netloc_3_11 = ['''', ''ftp'', ''http'', ''gopher'', ''nntp'', ''telnet'',
     ''imap'', ''wais'', ''file'', ''mms'', ''https'', ''shttp'',
     ''snews'', ''prospero'', ''rtsp'', ''rtsps'', ''rtspu'', ''rsync'',
     ''svn'', ''svn+ssh'', ''sftp'', ''nfs'', ''git'', ''git+ssh'',
     ''ws'', ''wss'']"

text \<open>
  The scheme: \<^verbatim>\<open>i = url.find(':')\<close>; when \<open>i > 0\<close>, the first character is an ASCII letter
  and \<^verbatim>\<open>url[:i]\<close> has scheme characters only, the scheme is \<^verbatim>\<open>url[:i].lower()\<close> and the
  rest \<^verbatim>\<open>url[i+1:]\<close>.
\<close>

definition has_scheme :: "string \<Rightarrow> bool" where
  "has_scheme url =
     (let pre = takeWhile (\<lambda>c. c \<noteq> CHR '':'') url
      in CHR '':'' \<in> set url \<and> pre \<noteq> [] \<and> ascii_alpha (hd url) \<and> list_all scheme_char pre)"

definition split_scheme :: "string \<Rightarrow> string \<times> string" where
  "split_scheme url =
     (if has_scheme url
      then (lower (takeWhile (\<lambda>c. c \<noteq> CHR '':'') url),
            tl (dropWhile (\<lambda>c. c \<noteq> CHR '':'') url))
      else ([], url))"

text \<open>\<^verbatim>\<open>_splitnetloc(url, 2)\<close>: up to the first of \<^verbatim>\<open>/?#\<close> after the two slashes.\<close>

definition netloc_delim :: "char \<Rightarrow> bool" where
  "netloc_delim c = (c = CHR ''/'' \<or> c = CHR ''?'' \<or> c = CHR ''#'')"

definition splitnetloc :: "string \<Rightarrow> string \<times> string" where
  "splitnetloc url =
     (takeWhile (\<lambda>c. \<not> netloc_delim c) (drop 2 url),
      dropWhile (\<lambda>c. \<not> netloc_delim c) (drop 2 url))"

text \<open>
  \<^verbatim>\<open>netloc.partition('[')[2].partition(']')[0]\<close>, and the test of CPython 3.11.10 on a
  network location with both brackets, over the validity test \<open>host_ok\<close> of a bracketed
  host.
\<close>

definition bracketed_host :: "string \<Rightarrow> string" where
  "bracketed_host netloc =
     takeWhile (\<lambda>c. c \<noteq> CHR '']'') (tl (dropWhile (\<lambda>c. c \<noteq> CHR ''['') netloc))"

definition check_bracketed_host :: "(string \<Rightarrow> bool) \<Rightarrow> string \<Rightarrow> bool" where
  "check_bracketed_host host_ok netloc = host_ok (bracketed_host netloc)"

text \<open>The checks on the network location; each failure is a \<^verbatim>\<open>ValueError\<close>.\<close>

definition check_netloc :: "stdlib \<Rightarrow> string \<Rightarrow> error option" where
  "check_netloc lib netloc =
     (if (CHR ''['' \<in> set netloc \<and> CHR '']'' \<notin> set netloc) \<or>
         (CHR '']'' \<in> set netloc \<and> CHR ''['' \<notin> set netloc)
      then Some InvalidIPv6URL
      else if CHR ''['' \<in> set netloc \<and> CHR '']'' \<in> set netloc \<and> \<not> netloc_ok lib netloc
      then Some InvalidBracketedHost
      else None)"

text \<open>\<^verbatim>\<open>url.split(c, 1)\<close> when \<open>c\<close> occurs: the part before and the part after it.\<close>

definition split_at :: "char \<Rightarrow> string \<Rightarrow> string \<times> string" where
  "split_at c url =
     (if c \<in> set url
      then (takeWhile (\<lambda>x. x \<noteq> c) url, tl (dropWhile (\<lambda>x. x \<noteq> c) url))
      else (url, []))"

record split_result =
  url_scheme :: string
  url_netloc :: string
  url_path :: string
  url_query :: string
  url_fragment :: string

definition urlsplit :: "stdlib \<Rightarrow> string \<Rightarrow> error + split_result" where
  "urlsplit lib url0 =
     (let url = (if lstrip_c0 lib then dropWhile c0_control_or_space url0 else url0);
          url = filter (\<lambda>c. \<not> unsafe_url_byte c) url;
          (scheme, url) = split_scheme url;
          (netloc, url) = (if take 2 url = ''//'' then splitnetloc url else ([], url))
      in case check_netloc lib netloc of
           Some e \<Rightarrow> Inl e
         | None \<Rightarrow>
             (let (url, fragment) = split_at CHR ''#'' url;
                  (url, query) = split_at CHR ''?'' url
              in Inr \<lparr>url_scheme = scheme, url_netloc = netloc, url_path = url,
                      url_query = query, url_fragment = fragment\<rparr>))"

text \<open>
  \<^verbatim>\<open>urlunsplit\<close>.  Its first condition is
  \<^verbatim>\<open>netloc or (scheme and scheme in uses_netloc) or url[:2] == '//'\<close> in the patched
  releases and \<^verbatim>\<open>netloc or (scheme and scheme in uses_netloc and url[:2] != '//')\<close> in the
  older ones.
\<close>

definition urlunsplit ::
  "stdlib \<Rightarrow> string \<Rightarrow> string \<Rightarrow> string \<Rightarrow> string \<Rightarrow> string \<Rightarrow> string" where
  "urlunsplit lib scheme netloc url query fragment =
     (let url = (if (if patched_urlunsplit lib
                     then netloc \<noteq> [] \<or> (scheme \<noteq> [] \<and> scheme \<in> set (uses_netloc lib)) \<or>
                          take 2 url = ''//''
                     else netloc \<noteq> [] \<or> (scheme \<noteq> [] \<and> scheme \<in> set (uses_netloc lib) \<and>
                          take 2 url \<noteq> ''//''))
                 then ''//'' @ netloc @
                        (if url \<noteq> [] \<and> take 1 url \<noteq> ''/'' then ''/'' @ url else url)
                 else url);
          url = (if scheme \<noteq> [] then scheme @ '':'' @ url else url);
          url = (if query \<noteq> [] then url @ ''?'' @ query else url);
          url = (if fragment \<noteq> [] then url @ ''#'' @ fragment else url)
      in url)"

text \<open>\<^verbatim>\<open>path.rstrip("/")\<close>.\<close>

definition rstrip_slash :: "string \<Rightarrow> string" where
  "rstrip_slash s = rev (dropWhile (\<lambda>c. c = CHR ''/'') (rev s))"

text \<open>
  Names for the proofs: the URL after \<^verbatim>\<open>urlsplit\<close> has stripped and cleaned it, and
  the path that remains of the rest after the fragment and the query are split off.
\<close>

definition clean_url :: "stdlib \<Rightarrow> string \<Rightarrow> string" where
  "clean_url lib url0 =
     filter (\<lambda>c. \<not> unsafe_url_byte c)
       (if lstrip_c0 lib then dropWhile c0_control_or_space url0 else url0)"

definition path_of :: "string \<Rightarrow> string" where
  "path_of url = fst (split_at CHR ''?'' (fst (split_at CHR ''#'' url)))"

text \<open>
  The scheme, the network location and the rest that \<^verbatim>\<open>urlsplit\<close> finds, and the
  canonical form built from them.
\<close>

definition parse_url :: "stdlib \<Rightarrow> string \<Rightarrow> string \<times> string \<times> string" where
  "parse_url lib url0 =
     (let (scheme, url) = split_scheme (clean_url lib url0);
          (netloc, url) = (if take 2 url = ''//'' then splitnetloc url else ([], url))
      in (scheme, netloc, url))"

definition canonical_of :: "stdlib \<Rightarrow> string \<Rightarrow> error + string" where
  "canonical_of lib url0 =
     (case parse_url lib url0 of
        (scheme, netloc, url) \<Rightarrow>
          (case check_netloc lib netloc of
             Some e \<Rightarrow> Inl e
           | None \<Rightarrow>
               Inr (urlunsplit lib scheme (lower netloc) (rstrip_slash (path_of url)) [] [])))"

text \<open>
  A cell of a data frame read from CSV: a string, or a missing value (which is not a
  \<^verbatim>\<open>str\<close>).
\<close>

datatype cell = Str string | NaN

fun canonicalize_url :: "stdlib \<Rightarrow> cell \<Rightarrow> error + string" where
  "canonicalize_url lib NaN = Inr []"
| "canonicalize_url lib (Str url) =
     (let trimmed = strip url in
      if trimmed = [] then Inr []
      else case urlsplit lib trimmed of
             Inl e \<Rightarrow> Inl e
           | Inr parts \<Rightarrow>
               Inr (urlunsplit lib (url_scheme parts) (lower (url_netloc parts))
                      (rstrip_slash (url_path parts)) [] []))"

section \<open>\<^verbatim>\<open>ml_training/data_loader.py\<close>: loading the posts of a company\<close>

text \<open>
  A posts file as \<^verbatim>\<open>pd.read_csv\<close> returns it: its column names, and of every row the two
  cells that \<^verbatim>\<open>_load_posts\<close> reads.  The data directory maps a file name to the table
  stored under it.
\<close>

record post_row =
  row_post_url :: cell
  row_post_text :: cell

record posts_table =
  columns :: "string list"
  rows :: "post_row list"

definition POST_REQUIRED_COLUMNS :: "string list" where
  "POST_REQUIRED_COLUMNS =
     [''post_url'', ''post_text'', ''posted_at'', ''likes'', ''total_comments'',
      ''risk_level'', ''risk_class'', ''risk_score'', ''risk_reasons'',
      ''risk_level_full'', ''risk_class_full'', ''risk_score_full'', ''risk_reasons_full'',
      ''pct_negative'', ''pct_negative_engineer'', ''pct_toxic_burnout'',
      ''pct_critical_hostile'', ''pct_supportive'', ''pct_negative_full'',
      ''pct_negative_engineer_full'', ''pct_toxic_burnout_full'',
      ''pct_critical_hostile_full'', ''pct_supportive_full'']"

text \<open>\<^verbatim>\<open>ensure_columns\<close>: the error, if one is raised.\<close>

definition ensure_columns :: "posts_table \<Rightarrow> string list \<Rightarrow> string \<Rightarrow> error option" where
  "ensure_columns df required df_name =
     (let missing = filter (\<lambda>col. col \<notin> set (columns df)) required
      in if missing \<noteq> [] then Some (MissingColumns df_name missing) else None)"

text \<open>A row of the frame after the columns \<^verbatim>\<open>company\<close> and \<^verbatim>\<open>post_url_clean\<close> are added.\<close>

record loaded_post =
  source_row :: post_row
  company :: string
  post_url_clean :: string

text \<open>\<^verbatim>\<open>df["post_url"].apply(canonicalize_url)\<close>: the first exception ends the load.\<close>

fun apply_canonicalize_url :: "stdlib \<Rightarrow> cell list \<Rightarrow> error + string list" where
  "apply_canonicalize_url lib [] = Inr []"
| "apply_canonicalize_url lib (c # cs) =
     (case canonicalize_url lib c of
        Inl e \<Rightarrow> Inl e
      | Inr u \<Rightarrow>
          (case apply_canonicalize_url lib cs of
             Inl e \<Rightarrow> Inl e
           | Inr us \<Rightarrow> Inr (u # us)))"

text \<open>\<^verbatim>\<open>astype(str)\<close> on a cell: a missing value prints as \<^verbatim>\<open>nan\<close>.\<close>

fun astype_str :: "cell \<Rightarrow> string" where
  "astype_str (Str s) = s"
| "astype_str NaN = ''nan''"

text \<open>\<^verbatim>\<open>drop_empty_text(df, "post_text")\<close>.\<close>

definition drop_empty_text :: "loaded_post list \<Rightarrow> loaded_post list" where
  "drop_empty_text df =
     filter (\<lambda>r. strip (astype_str (row_post_text (source_row r))) \<noteq> []) df"

text \<open>
  \<^verbatim>\<open>_assert_unique_posts\<close>: \<^verbatim>\<open>duplicated(subset=["company", "post_url_clean"], keep=False)\<close>
  marks every row whose pair occurs more than once.
\<close>

definition assert_unique_posts :: "loaded_post list \<Rightarrow> string \<Rightarrow> error option" where
  "assert_unique_posts df company_name =
     (let keys = map (\<lambda>r. (company r, post_url_clean r)) df;
          dups = filter (\<lambda>r. 1 < count_list keys (company r, post_url_clean r)) df
      in if dups \<noteq> [] then Some (DuplicatePosts company_name) else None)"

definition load_posts ::
  "stdlib \<Rightarrow> (string \<rightharpoonup> posts_table) \<Rightarrow> string \<Rightarrow> error + loaded_post list" where
  "load_posts lib data_dir company_name =
     (case data_dir (company_name @ ''_posts_training.csv'') of
        None \<Rightarrow> Inl (PostsFileMissing company_name)
      | Some df \<Rightarrow>
          (case ensure_columns df POST_REQUIRED_COLUMNS (company_name @ ''_posts_training.csv'') of
             Some e \<Rightarrow> Inl e
           | None \<Rightarrow>
               (case apply_canonicalize_url lib (map row_post_url (rows df)) of
                  Inl e \<Rightarrow> Inl e
                | Inr clean \<Rightarrow>
                    (let df1 = map2 (\<lambda>r u. \<lparr>source_row = r, company = company_name,
                                              post_url_clean = u\<rparr>) (rows df) clean;
                         df2 = filter (\<lambda>r. post_url_clean r \<noteq> []) df1;
                         df3 = drop_empty_text df2
                     in case assert_unique_posts df3 company_name of
                          Some e \<Rightarrow> Inl e
                        | None \<Rightarrow> Inr df3))))"

text \<open>
  A name for the proofs: the frame that reaches \<^verbatim>\<open>_assert_unique_posts\<close>, from the rows of
  the file and their canonical URLs.
\<close>

definition kept_posts :: "string \<Rightarrow> post_row list \<Rightarrow> string list \<Rightarrow> loaded_post list" where
  "kept_posts company_name rs clean =
     drop_empty_text
       (filter (\<lambda>r. post_url_clean r \<noteq> [])
          (map2 (\<lambda>r u. \<lparr>source_row = r, company = company_name, post_url_clean = u\<rparr>) rs clean))"

section \<open>Sample artifacts\<close>

text \<open>
  Small fitted artifacts on which the theorems are instantiated.
\<close>

definition sample_role_model :: role_composition_model where
  "sample_role_model =
     \<lparr>pipeline = Some \<lparr>role_tfidf = (\<lambda>_. []),
        role_vectorizer = \<lparr>transform = (\<lambda>_. []), feature_names = []\<rparr>,
        role_estimators = [\<lparr>coef = [], intercept = 1\<rparr>, \<lparr>coef = [], intercept = 0\<rparr>]\<rparr>\<rparr>"

definition sample_narrative_model :: narrative_pipeline where
  "sample_narrative_model =
     \<lparr>narr_tfidf = (\<lambda>_. [1]),
      narr_vectorizer = \<lparr>transform = (\<lambda>_. [(0, 1)]), feature_names = [''layoffs'']\<rparr>,
      narr_estimators = [ConstantPredictor True, LogisticRegression [1] 0,
        ConstantPredictor False, ConstantPredictor False, ConstantPredictor False]\<rparr>"

definition sample_risk_model :: risk_pipeline where
  "sample_risk_model =
     \<lparr>risk_predict_proba = (\<lambda>_. [1 / 2, 1 / 2]),
      risk_classes = Some [''Harmful'', ''Helpful''],
      risk_vectorizer = Some \<lparr>transform = (\<lambda>_. [(0, 1)]), feature_names = [''layoffs'']\<rparr>,
      risk_coefficients = Some [2]\<rparr>"

definition sample_predictor :: predictor where
  "sample_predictor =
     \<lparr>role_buckets = [''Software Engineer'', ''Other''],
      narrative_labels = [''toxic_culture'', ''burnout'', ''elitism'',
        ''credibility_overclaim'', ''culture_misalignment''],
      narrative_threshold = 1 / 2,
      role_model = sample_role_model,
      narrative_model = sample_narrative_model,
      risk_model = sample_risk_model,
      retriever = None\<rparr>"

definition other_risk_model :: risk_pipeline where
  "other_risk_model = sample_risk_model\<lparr>risk_predict_proba := (\<lambda>_. [1 / 10, 9 / 10])\<rparr>"

definition sample_request :: analyze_request where
  "sample_request = \<lparr>post_text = ''layoffs'', company_hint = None\<rparr>"

text \<open>
  Two sorts that meet what NumPy promises of \<^verbatim>\<open>np.argsort\<close>.  The first is the stable
  one: equal values keep their index order.  The second is not stable: on the vector
  \<open>tie_sims\<close> it leaves the indices of equal values in the order in which NumPy's
  vectorised sort kernel leaves them.
\<close>

definition stable_argsort :: "real list \<Rightarrow> nat list" where
  "stable_argsort a = map snd (sort_key fst (zip a [0 ..< length a]))"

definition tie_sims :: "real list" where
  "tie_sims = [3 / 5, 1, 1, 3 / 5, 1, 0, 3 / 5]"

definition unstable_argsort :: "real list \<Rightarrow> nat list" where
  "unstable_argsort a = (if a = tie_sims then [5, 0, 6, 3, 2, 1, 4] else stable_argsort a)"

text \<open>
  A retriever with seven training rows, whose similarities to every query are \<open>tie_sims\<close>:
  rows 1, 2 and 4 are the same, and so are rows 0, 3 and 6.
\<close>

definition tie_retriever :: retriever where
  "tie_retriever =
     \<lparr>ret_vectorizer = (\<lambda>_. [1, 0]),
      ret_matrix = [[3, 4], [1, 0], [1, 0], [3, 4], [1, 0], [0, 1], [3, 4]],
      ret_index = map (\<lambda>n. \<lparr>ix_company = ''acme'', ix_post_url = ''https://example.com/'' @ n\<rparr>)
                    [''0'', ''1'', ''2'', ''3'', ''4'', ''5'', ''6'']\<rparr>"

text \<open>
  The standard library of two releases.  The URLs of the examples below have no bracket,
  so the test \<open>netloc_ok\<close> is never consulted on them; the examples take the test that
  accepts every network location (as CPython 3.11.2, which has none).
\<close>

definition accept_netloc :: "string \<Rightarrow> bool" where
  "accept_netloc n = True"

definition cpython_3_11_2 :: stdlib where
  "cpython_3_11_2 =
     \<lparr>lstrip_c0 = False, netloc_ok = accept_netloc, uses_netloc = uses_netloc_3_11,
      patched_urlunsplit = False\<rparr>"

definition cpython_3_11_10 :: stdlib where
  "cpython_3_11_10 =
     \<lparr>lstrip_c0 = True, netloc_ok = accept_netloc, uses_netloc = uses_netloc_3_11,
      patched_urlunsplit = True\<rparr>"

text \<open>
  Two posts files of a company \<^verbatim>\<open>acme\<close>, each with two rows whose URLs have the same
  canonical form; in the second file the text of the second row is blank.  The data
  directory of the examples holds one such file.
\<close>

definition duplicate_posts_table :: posts_table where
  "duplicate_posts_table =
     \<lparr>columns = POST_REQUIRED_COLUMNS,
      rows = [\<lparr>row_post_url = Str ''https://example.com/posts/1'',
                row_post_text = Str ''We are hiring''\<rparr>,
              \<lparr>row_post_url = Str ''https://Example.com/posts/1/?utm=feed'',
                row_post_text = Str ''We are hiring again''\<rparr>]\<rparr>"

definition blank_duplicate_table :: posts_table where
  "blank_duplicate_table =
     \<lparr>columns = POST_REQUIRED_COLUMNS,
      rows = [\<lparr>row_post_url = Str ''https://example.com/posts/1'',
                row_post_text = Str ''We are hiring''\<rparr>,
              \<lparr>row_post_url = Str ''https://Example.com/posts/1/?utm=feed'',
                row_post_text = Str ''   ''\<rparr>]\<rparr>"

definition sample_data_dir :: "posts_table \<Rightarrow> string \<rightharpoonup> posts_table" where
  "sample_data_dir t = Map.empty(''acme_posts_training.csv'' \<mapsto> t)"

section \<open>Proofs: softmax\<close>

lemma row_max_eq_Max:
  assumes "row \<noteq> []"
  shows "row_max row = Max (set row)"
proof (cases row)
  case Nil
  with assms show ?thesis by simp
next
  case (Cons a as)
  then show ?thesis
    using Max.set_eq_fold [of a as] by (simp add: row_max_def)
qed

lemma row_max_ge: "x \<in> set row \<Longrightarrow> x \<le> row_max row"
  by (cases "row = []") (simp_all add: row_max_eq_Max)

lemma row_max_mem: "row \<noteq> [] \<Longrightarrow> row_max row \<in> set row"
  using Max_in [of "set row"] by (simp add: row_max_eq_Max)

lemma ln2_pos: "0 < ln (2::real)"
  by simp

lemma np_exp_nonneg: "0 \<le> np_exp x"
  by (simp add: np_exp_def)

lemma np_exp_zero: "np_exp 0 = 1"
  by (simp add: np_exp_def)

lemma np_exp_le_one: "x \<le> 0 \<Longrightarrow> np_exp x \<le> 1"
  by (simp add: np_exp_def)

lemma np_exp_pos_iff: "0 < np_exp x \<longleftrightarrow> - 1075 * ln 2 < x"
  by (simp add: np_exp_def not_le)

lemma np_exp_eq_zero_iff: "np_exp x = 0 \<longleftrightarrow> x \<le> - 1075 * ln 2"
  by (simp add: np_exp_def)

lemma exp_shift_le_one: "x \<in> set row \<Longrightarrow> np_exp (x - row_max row) \<le> 1"
  using row_max_ge [of x row] by (simp add: np_exp_le_one)

lemma sum_exp_shift_ge_one:
  assumes "row \<noteq> []"
  shows "1 \<le> sum_list (map (\<lambda>x. np_exp (x - row_max row)) row)"
proof -
  let ?es = "map (\<lambda>x. np_exp (x - row_max row)) row"
  have nonneg: "\<And>e. e \<in> set ?es \<Longrightarrow> 0 \<le> e"
    by (auto simp: np_exp_nonneg)
  from row_max_mem [OF assms]
  have "(\<lambda>x. np_exp (x - row_max row)) (row_max row) \<in> (\<lambda>x. np_exp (x - row_max row)) ` set row"
    by (rule imageI)
  then have "np_exp (row_max row - row_max row) \<in> set ?es"
    by (simp only: set_map)
  then have "np_exp (row_max row - row_max row) \<le> sum_list ?es"
    using member_le_sum_list [of _ ?es] nonneg by (simp add: member_le_sum_list)
  then show ?thesis by (simp add: np_exp_zero)
qed

lemma softmax_rows_Inr:
  assumes "[] \<notin> set arr"
  shows "softmax_rows arr =
     Inr (map (\<lambda>row. map (\<lambda>x. np_exp (x - row_max row) /
              clip_low (sum_list (map (\<lambda>y. np_exp (y - row_max row)) row))) row) arr)"
  using assms
  by (simp add: softmax_rows_def sums_rows_def exp_vals_rows_def shifted_rows_def
      zip_map_map zip_same_conv_map comp_def)

lemma clip_low_ge: "1 / 10 ^ 12 \<le> clip_low x"
  by (simp add: clip_low_def)

lemma clip_low_pos: "0 < clip_low x"
proof -
  have "(0::real) < 1 / 10 ^ 12" by simp
  then show ?thesis using clip_low_ge [of x] by linarith
qed

lemma clip_low_id: "1 \<le> x \<Longrightarrow> clip_low x = x"
  by (simp add: clip_low_def max_def)

lemma softmax_entry_nonneg:
  "0 \<le> np_exp (x - row_max row) / clip_low s"
  using clip_low_pos [of s] by (simp add: np_exp_nonneg)

lemma softmax_entry_pos_iff:
  "0 < np_exp (x - row_max row) / clip_low s \<longleftrightarrow> - 1075 * ln 2 < x - row_max row"
  using clip_low_pos [of s] by (simp add: zero_less_divide_iff np_exp_pos_iff)

lemma softmax_entry_eq_zero_iff:
  "np_exp (x - row_max row) / clip_low s = 0 \<longleftrightarrow> x - row_max row \<le> - 1075 * ln 2"
  using clip_low_pos [of s] by (simp add: np_exp_eq_zero_iff)

lemma softmax_entry_le_one:
  assumes "x \<in> set row"
  shows "np_exp (x - row_max row) / clip_low (sum_list (map (\<lambda>y. np_exp (y - row_max row)) row)) \<le> 1"
proof -
  let ?es = "map (\<lambda>y. np_exp (y - row_max row)) row"
  have "np_exp (x - row_max row) \<in> set ?es" using assms by simp
  moreover have "\<And>e. e \<in> set ?es \<Longrightarrow> 0 \<le> e" by (auto simp: np_exp_nonneg)
  ultimately have "np_exp (x - row_max row) \<le> sum_list ?es"
    by (rule member_le_sum_list)
  also have "\<dots> \<le> clip_low (sum_list ?es)" by (simp add: clip_low_def)
  finally show ?thesis using clip_low_pos [of "sum_list ?es"] by simp
qed

lemma sum_list_map_divide:
  "sum_list (map (\<lambda>x. f x / c) xs) = sum_list (map f xs) / (c::real)"
  by (induction xs) (simp_all add: add_divide_distrib)

lemma softmax_row_sum_one:
  assumes "row \<noteq> []"
  shows "sum_list (map (\<lambda>x. np_exp (x - row_max row) /
              clip_low (sum_list (map (\<lambda>y. np_exp (y - row_max row)) row))) row) = 1"
proof -
  let ?s = "sum_list (map (\<lambda>y. np_exp (y - row_max row)) row)"
  have s: "1 \<le> ?s" by (rule sum_exp_shift_ge_one [OF assms])
  then have c: "clip_low ?s = ?s" by (rule clip_low_id)
  have "sum_list (map (\<lambda>x. np_exp (x - row_max row) / ?s) row) = ?s / ?s"
    by (rule sum_list_map_divide)
  then show ?thesis using s c by simp
qed

lemma ln2_gt_half: "1 / 2 < ln (2::real)"
proof -
  have "exp (1 / 2 :: real) \<le> 1 + (1 / 2) + (1 / 2)\<^sup>2" by (rule exp_bound) simp_all
  also have "\<dots> < 2" by (simp add: power2_eq_square)
  finally have "exp (1 / 2 :: real) < exp (ln 2)" by simp
  then show ?thesis by (simp only: exp_less_cancel_iff)
qed

lemma ln2_less: "ln (2::real) < 40 / 43"
proof -
  have "(2::real) < 1 + (40 / 43) + (40 / 43)\<^sup>2 / 2" by (simp add: power2_eq_square)
  also have "\<dots> \<le> exp (40 / 43)" by (rule exp_lower_Taylor_quadratic) simp
  finally have "exp (ln 2) < exp (40 / 43 :: real)" by simp
  then show ?thesis by (simp only: exp_less_cancel_iff)
qed

lemma softmax_entry_max_pos:
  assumes "x = row_max row"
  shows "0 < np_exp (x - row_max row) / clip_low s"
  using assms clip_low_pos [of s] by (simp add: np_exp_zero)

lemma sums_rows_ge_one:
  assumes "[] \<notin> set arr" and "s \<in> set (sums_rows arr)"
  shows "1 \<le> s"
proof -
  from assms(2) obtain row where row: "row \<in> set arr"
    and s: "s = clip_low (sum_list (map (\<lambda>x. np_exp (x - row_max row)) row))"
    by (auto simp: sums_rows_def exp_vals_rows_def shifted_rows_def comp_def)
  from row assms(1) have "row \<noteq> []" by auto
  then have "1 \<le> sum_list (map (\<lambda>x. np_exp (x - row_max row)) row)"
    by (rule sum_exp_shift_ge_one)
  then show ?thesis unfolding s by (simp add: clip_low_id)
qed

text \<open>
  Claim C9, as amended.  On every real matrix whose rows have at least one column,
  \<^verbatim>\<open>softmax_rows\<close> returns a matrix of the same shape.  Every divisor (the clipped row
  sum) is at least 1, hence not zero.  Every entry of the result lies between 0 and 1;
  the entry at a maximum of its row is strictly positive, so every row has a positive
  entry; and an entry that lies \<open>1075 ln 2\<close> or more below the maximum of its row is
  exactly 0, because its exponential underflows.
\<close>

theorem softmax_rows_total_safe:
  assumes "[] \<notin> set arr"
  shows "(\<exists>res. softmax_rows arr = Inr res \<and> length res = length arr \<and>
            (\<forall>i < length arr. length (res ! i) = length (arr ! i) \<and>
               (\<exists>j < length (arr ! i). 0 < res ! i ! j) \<and>
               (\<forall>j < length (arr ! i).
                  0 \<le> res ! i ! j \<and> res ! i ! j \<le> 1 \<and>
                  (arr ! i ! j = row_max (arr ! i) \<longrightarrow> 0 < res ! i ! j) \<and>
                  (arr ! i ! j - row_max (arr ! i) \<le> - 1075 * ln 2 \<longrightarrow> res ! i ! j = 0)))) \<and>
         length (sums_rows arr) = length arr \<and>
         (\<forall>s \<in> set (sums_rows arr). 1 \<le> s)"
proof (intro conjI)
  let ?res = "map (\<lambda>row. map (\<lambda>x. np_exp (x - row_max row) /
              clip_low (sum_list (map (\<lambda>y. np_exp (y - row_max row)) row))) row) arr"
  have res: "softmax_rows arr = Inr ?res" by (rule softmax_rows_Inr [OF assms])
  have rows: "\<forall>i < length arr. length (?res ! i) = length (arr ! i) \<and>
               (\<exists>j < length (arr ! i). 0 < ?res ! i ! j) \<and>
               (\<forall>j < length (arr ! i).
                  0 \<le> ?res ! i ! j \<and> ?res ! i ! j \<le> 1 \<and>
                  (arr ! i ! j = row_max (arr ! i) \<longrightarrow> 0 < ?res ! i ! j) \<and>
                  (arr ! i ! j - row_max (arr ! i) \<le> - 1075 * ln 2 \<longrightarrow> ?res ! i ! j = 0))"
  proof (intro allI impI)
    fix i assume i: "i < length arr"
    let ?row = "arr ! i"
    from i assms have ne: "?row \<noteq> []" by (metis nth_mem)
    from row_max_mem [OF ne] obtain j where j: "j < length ?row" "?row ! j = row_max ?row"
      by (auto simp: in_set_conv_nth)
    have ex: "\<exists>j < length ?row. 0 < ?res ! i ! j"
      using i j clip_low_pos by (auto intro!: exI [of _ j] simp: np_exp_zero)
    have all: "\<forall>j < length ?row.
                  0 \<le> ?res ! i ! j \<and> ?res ! i ! j \<le> 1 \<and>
                  (?row ! j = row_max ?row \<longrightarrow> 0 < ?res ! i ! j) \<and>
                  (?row ! j - row_max ?row \<le> - 1075 * ln 2 \<longrightarrow> ?res ! i ! j = 0)"
    proof (intro allI impI)
      fix j assume j: "j < length ?row"
      let ?e = "np_exp (?row ! j - row_max ?row) /
              clip_low (sum_list (map (\<lambda>y. np_exp (y - row_max ?row)) ?row))"
      have e: "?res ! i ! j = ?e" using i j by simp
      have "?row ! j \<in> set ?row" using j by simp
      then have "?e \<le> 1" by (rule softmax_entry_le_one)
      moreover have "0 \<le> ?e" by (rule softmax_entry_nonneg)
      moreover have "?row ! j = row_max ?row \<longrightarrow> 0 < ?e"
        using clip_low_pos by (auto simp: np_exp_zero)
      moreover have "?row ! j - row_max ?row \<le> - 1075 * ln 2 \<longrightarrow> ?e = 0"
        by (simp only: softmax_entry_eq_zero_iff) simp
      ultimately show "0 \<le> ?res ! i ! j \<and> ?res ! i ! j \<le> 1 \<and>
                  (?row ! j = row_max ?row \<longrightarrow> 0 < ?res ! i ! j) \<and>
                  (?row ! j - row_max ?row \<le> - 1075 * ln 2 \<longrightarrow> ?res ! i ! j = 0)"
        unfolding e by blast
    qed
    from i ex all
    show "length (?res ! i) = length ?row \<and>
               (\<exists>j < length ?row. 0 < ?res ! i ! j) \<and>
               (\<forall>j < length ?row.
                  0 \<le> ?res ! i ! j \<and> ?res ! i ! j \<le> 1 \<and>
                  (?row ! j = row_max ?row \<longrightarrow> 0 < ?res ! i ! j) \<and>
                  (?row ! j - row_max ?row \<le> - 1075 * ln 2 \<longrightarrow> ?res ! i ! j = 0))"
      by simp
  qed
  from res rows
  show "\<exists>res. softmax_rows arr = Inr res \<and> length res = length arr \<and>
            (\<forall>i < length arr. length (res ! i) = length (arr ! i) \<and>
               (\<exists>j < length (arr ! i). 0 < res ! i ! j) \<and>
               (\<forall>j < length (arr ! i).
                  0 \<le> res ! i ! j \<and> res ! i ! j \<le> 1 \<and>
                  (arr ! i ! j = row_max (arr ! i) \<longrightarrow> 0 < res ! i ! j) \<and>
                  (arr ! i ! j - row_max (arr ! i) \<le> - 1075 * ln 2 \<longrightarrow> res ! i ! j = 0)))"
    by (intro exI [of _ ?res]) simp
  show "length (sums_rows arr) = length arr"
    by (simp add: sums_rows_def exp_vals_rows_def shifted_rows_def)
  show "\<forall>s \<in> set (sums_rows arr). 1 \<le> s"
    using sums_rows_ge_one [OF assms] by blast
qed

lemma softmax_rows_entries_nonneg:
  assumes "softmax_rows arr = Inr res" "row \<in> set res" "x \<in> set row"
  shows "0 \<le> x"
proof -
  have ne: "[] \<notin> set arr" using assms(1) by (auto simp: softmax_rows_def split: if_splits)
  show ?thesis
    using assms softmax_entry_nonneg unfolding softmax_rows_Inr [OF ne] by auto
qed

lemma softmax_rows_row_sum:
  assumes "softmax_rows arr = Inr res" "row \<in> set res"
  shows "sum_list row = 1"
proof -
  have ne: "[] \<notin> set arr" using assms(1) by (auto simp: softmax_rows_def split: if_splits)
  from assms obtain r where r: "r \<in> set arr" and row:
    "row = map (\<lambda>x. np_exp (x - row_max r) /
              clip_low (sum_list (map (\<lambda>y. np_exp (y - row_max r)) r))) r"
    unfolding softmax_rows_Inr [OF ne] by auto
  from r ne have "r \<noteq> []" by auto
  then show ?thesis unfolding row by (rule softmax_row_sum_one)
qed

lemma softmax_rows_length:
  "softmax_rows arr = Inr res \<Longrightarrow> length res = length arr"
  by (auto simp: softmax_rows_def sums_rows_def exp_vals_rows_def shifted_rows_def
      split: if_splits)

lemma softmax_rows_row_length:
  "softmax_rows arr = Inr res \<Longrightarrow> i < length arr \<Longrightarrow> length (res ! i) = length (arr ! i)"
  by (auto simp: softmax_rows_def sums_rows_def exp_vals_rows_def shifted_rows_def
      split: if_splits)

lemma pipeline_predict_no_empty_row:
  "role_estimators p \<noteq> [] \<Longrightarrow> [] \<notin> set (pipeline_predict p X)"
  by (auto simp: pipeline_predict_def)

lemma fitted_predict_Inr:
  assumes "fitted m"
  shows "\<exists>p res. pipeline m = Some p \<and> role_estimators p \<noteq> [] \<and>
           predict m X = Inr res \<and> softmax_rows (pipeline_predict p X) = Inr res"
proof -
  from assms obtain p where p: "pipeline m = Some p" "role_estimators p \<noteq> []"
    by (auto simp: fitted_def split: option.splits)
  have "[] \<notin> set (pipeline_predict p X)" by (rule pipeline_predict_no_empty_row [OF p(2)])
  then obtain res where "softmax_rows (pipeline_predict p X) = Inr res"
    by (simp add: softmax_rows_def)
  with p show ?thesis by (auto simp: predict_def)
qed

text \<open>
  Claim C1.  For every fitted role composition model and every list of input texts,
  \<^verbatim>\<open>predict\<close> returns one row per text, and in every row the values are non-negative
  and sum to 1 (exactly, hence within the tolerance \<open>10\<^sup>-\<^sup>6\<close>).
\<close>

theorem predict_rows_are_distributions:
  assumes "fitted m"
  shows "\<exists>res. predict m X = Inr res \<and> length res = length X \<and>
           (\<forall>row \<in> set res. (\<forall>x \<in> set row. 0 \<le> x) \<and> sum_list row = 1 \<and>
              \<bar>sum_list row - 1\<bar> \<le> 1 / 10 ^ 6)"
proof -
  from fitted_predict_Inr [OF assms, of X] obtain p res where
    p: "pipeline m = Some p" and res: "predict m X = Inr res"
    and sm: "softmax_rows (pipeline_predict p X) = Inr res"
    by blast
  have len: "length res = length X"
    using softmax_rows_length [OF sm] by (simp add: pipeline_predict_def)
  have rows: "\<forall>row \<in> set res. (\<forall>x \<in> set row. 0 \<le> x) \<and> sum_list row = 1 \<and>
              \<bar>sum_list row - 1\<bar> \<le> 1 / 10 ^ 6"
  proof
    fix row assume row: "row \<in> set res"
    have "\<forall>x \<in> set row. 0 \<le> x"
      using softmax_rows_entries_nonneg [OF sm row] by auto
    moreover have "sum_list row = 1" by (rule softmax_rows_row_sum [OF sm row])
    ultimately show "(\<forall>x \<in> set row. 0 \<le> x) \<and> sum_list row = 1 \<and>
              \<bar>sum_list row - 1\<bar> \<le> 1 / 10 ^ 6" by simp
  qed
  from res len rows show ?thesis by blast
qed

theorem predict_rows_are_distributions_witness:
  "fitted sample_role_model \<and>
   (\<exists>res. predict sample_role_model [''hello''] = Inr res \<and> length res = 1 \<and>
      list_all (\<lambda>row. list_all (\<lambda>x. 0 \<le> x) row \<and> sum_list row = 1) res)"
proof -
  have f: "fitted sample_role_model"
    by (simp add: fitted_def sample_role_model_def)
  from predict_rows_are_distributions [OF f, of "[''hello'']"]
  show ?thesis using f by (auto simp: list_all_iff)
qed

lemma isclose_one: "isclose 1 1"
  by (simp add: isclose_def)

lemma role_distribution_of_distribution:
  assumes "predict (role_model P) [text] = Inr [sm]"
  shows "role_distribution P text = dist_of_probs (role_buckets P) sm"
proof -
  have sm: "softmax_rows (pipeline_predict (the (pipeline (role_model P))) [text]) = Inr [sm]"
    using assms by (auto simp: predict_def split: option.splits)
  have "\<forall>x \<in> set sm. 0 \<le> x"
    using softmax_rows_entries_nonneg [OF sm, of sm] by simp
  then have nonneg: "\<not> (\<exists>x \<in> set sm. x < 0)" by (auto simp: not_less)
  have "sum_list sm = 1" using softmax_rows_row_sum [OF sm, of sm] by simp
  with nonneg show ?thesis
    using assms by (simp add: role_distribution_def isclose_one)
qed

text \<open>
  Claim C2, as amended.  For every fitted model and every text, the distribution returned
  by \<^verbatim>\<open>predict\<close>, and served by \<^verbatim>\<open>_role_distribution\<close>, is the row-wise softmax of the raw
  regression outputs of \<^verbatim>\<open>predict_raw\<close>, whatever these are: \<^verbatim>\<open>predict\<close> normalises
  unconditionally, and the guard of the facade tests the normalised row, which always
  passes through.
\<close>

theorem role_distribution_is_softmax:
  assumes "pipeline (role_model P) = Some p" and "role_estimators p \<noteq> []"
  shows "\<exists>raw sm. predict_raw (role_model P) [text] = Inr [raw] \<and>
           softmax_rows [raw] = Inr [sm] \<and>
           predict (role_model P) [text] = Inr [sm] \<and>
           role_distribution P text = dist_of_probs (role_buckets P) sm"
proof -
  define raw where "raw = map (\<lambda>e. ridge_predict e (role_tfidf p text)) (role_estimators p)"
  have pp: "pipeline_predict p [text] = [raw]"
    by (simp add: pipeline_predict_def raw_def)
  have "raw \<noteq> []" using assms(2) by (simp add: raw_def)
  then obtain res where res: "softmax_rows [raw] = Inr res"
    by (simp add: softmax_rows_def)
  from softmax_rows_length [OF res] obtain sm where [simp]: "res = [sm]"
    by (cases res) auto
  have pr: "predict (role_model P) [text] = Inr [sm]"
    using res assms(1) pp by (simp add: predict_def)
  have "predict_raw (role_model P) [text] = Inr [raw]"
    using assms(1) pp by (simp add: predict_raw_def)
  moreover note res [simplified] pr role_distribution_of_distribution [OF pr]
  ultimately show ?thesis by blast
qed

theorem role_distribution_is_softmax_witness:
  "pipeline (role_model sample_predictor) =
      Some \<lparr>role_tfidf = (\<lambda>_. []),
        role_vectorizer = \<lparr>transform = (\<lambda>_. []), feature_names = []\<rparr>,
        role_estimators = [\<lparr>coef = [], intercept = 1\<rparr>, \<lparr>coef = [], intercept = 0\<rparr>]\<rparr> \<and>
   (\<exists>raw sm. predict_raw (role_model sample_predictor) [''hello''] = Inr [raw] \<and>
           softmax_rows [raw] = Inr [sm] \<and>
           predict (role_model sample_predictor) [''hello''] = Inr [sm] \<and>
           role_distribution sample_predictor ''hello'' =
             dist_of_probs (role_buckets sample_predictor) sm)"
proof -
  have p: "pipeline (role_model sample_predictor) =
      Some \<lparr>role_tfidf = (\<lambda>_. []),
        role_vectorizer = \<lparr>transform = (\<lambda>_. []), feature_names = []\<rparr>,
        role_estimators = [\<lparr>coef = [], intercept = 1\<rparr>, \<lparr>coef = [], intercept = 0\<rparr>]\<rparr>"
    by (simp add: sample_predictor_def sample_role_model_def)
  show ?thesis
    using role_distribution_is_softmax [OF p, of "''hello''"] p by simp
qed

lemma softmax_rows_one_zero:
  "softmax_rows [[1, 0]] = Inr [[exp 0 / (1 + exp (- 1)), exp (- 1) / (1 + exp (- 1))]]"
proof -
  have m: "row_max [1, 0] = 1" by (simp add: row_max_def)
  have "\<not> (- 1 \<le> - 1075 * ln (2::real))" using ln2_gt_half by simp
  then have e: "np_exp (- 1) = exp (- 1)" by (simp add: np_exp_def)
  have "(1::real) \<le> 1 + exp (- 1)" by simp
  then have c: "clip_low (1 + exp (- 1)) = 1 + exp (- 1)" by (rule clip_low_id)
  show ?thesis
    by (simp add: softmax_rows_Inr m np_exp_zero e c)
qed

text \<open>
  The claim as stated fails: the raw outputs \<open>[1, 0]\<close> are non-negative and sum to 1, and
  they are not what is returned.
\<close>

theorem passthrough_counterexample:
  "predict_raw (role_model sample_predictor) [''hello''] = Inr [[1, 0]] \<and>
   list_all (\<lambda>x. 0 \<le> x) [1, 0 :: real] \<and> isclose (sum_list [1, 0]) 1 \<and>
   predict (role_model sample_predictor) [''hello''] \<noteq> Inr [[1, 0]] \<and>
   role_distribution sample_predictor ''hello'' \<noteq>
     Inr [(''Software Engineer'', 1), (''Other'', 0)]"
proof -
  have raw: "predict_raw (role_model sample_predictor) [''hello''] = Inr [[1, 0]]"
    by (simp add: sample_predictor_def sample_role_model_def predict_raw_def
        pipeline_predict_def ridge_predict_def)
  have p: "pipeline (role_model sample_predictor) =
      Some \<lparr>role_tfidf = (\<lambda>_. []),
        role_vectorizer = \<lparr>transform = (\<lambda>_. []), feature_names = []\<rparr>,
        role_estimators = [\<lparr>coef = [], intercept = 1\<rparr>, \<lparr>coef = [], intercept = 0\<rparr>]\<rparr>"
    by (simp add: sample_predictor_def sample_role_model_def)
  have pr: "predict (role_model sample_predictor) [''hello''] \<noteq> Inr [[1, 0]]"
  proof
    assume a: "predict (role_model sample_predictor) [''hello''] = Inr [[1, 0]]"
    then have "softmax_rows (pipeline_predict (the (pipeline (role_model sample_predictor)))
        [''hello'']) = Inr [[1, 0]]"
      by (auto simp: predict_def split: option.splits)
    moreover have "pipeline_predict (the (pipeline (role_model sample_predictor))) [''hello'']
        = [[1, 0]]"
      using p by (simp add: pipeline_predict_def ridge_predict_def)
    ultimately show False by (simp add: softmax_rows_one_zero)
  qed
  have rd: "role_distribution sample_predictor ''hello'' \<noteq>
     Inr [(''Software Engineer'', 1), (''Other'', 0)]"
  proof
    assume a: "role_distribution sample_predictor ''hello'' =
       Inr [(''Software Engineer'', 1), (''Other'', 0)]"
    have "fitted (role_model sample_predictor)" using p by (simp add: fitted_def)
    from fitted_predict_Inr [OF this, of "[''hello'']"] obtain q res where
      q: "pipeline (role_model sample_predictor) = Some q"
      and res: "predict (role_model sample_predictor) [''hello''] = Inr res"
      and sm: "softmax_rows (pipeline_predict q [''hello'']) = Inr res" by blast
    from softmax_rows_length [OF sm] obtain r where r: "res = [r]"
      by (cases res) (auto simp: pipeline_predict_def)
    have "dist_of_probs (role_buckets sample_predictor) r =
       Inr [(''Software Engineer'', 1), (''Other'', 0)]"
      using role_distribution_of_distribution [of sample_predictor "''hello''" r] res r a
      by simp
    then have "2 \<le> length r \<and> r ! 1 = 0"
      by (auto simp: dist_of_probs_def sample_predictor_def enumerate_eq_zip
          upt_rec numeral_2_eq_2 split: if_splits)
    moreover from q p have "q = \<lparr>role_tfidf = (\<lambda>_. []),
        role_vectorizer = \<lparr>transform = (\<lambda>_. []), feature_names = []\<rparr>,
        role_estimators = [\<lparr>coef = [], intercept = 1\<rparr>, \<lparr>coef = [], intercept = 0\<rparr>]\<rparr>"
      by simp
    then have "pipeline_predict q [''hello''] = [[1, 0]]"
      by (simp add: pipeline_predict_def ridge_predict_def)
    moreover have "(0::real) < 1 + exp (- 1)" by (simp add: add_pos_pos)
    ultimately show False using sm r by (auto simp: softmax_rows_one_zero)
  qed
  from raw pr rd show ?thesis by (simp add: isclose_def)
qed

text \<open>
  The claim as stated (C9) fails on a matrix with a row and no column, where the row
  maximum does not exist; and on the row \<open>[1000, 0]\<close> the second entry of the result is
  0, not strictly positive, because \<open>exp (-1000)\<close> underflows.
\<close>

theorem softmax_rows_counterexample:
  "softmax_rows [[]] = Inl ZeroSizeReduction \<and>
   softmax_rows [[1000, 0]] = Inr [[1, 0]]"
proof -
  have m: "row_max [1000, 0] = 1000" by (simp add: row_max_def)
  have "- 1000 \<le> - 1075 * ln (2::real)" using ln2_less by simp
  then have e: "np_exp (- 1000) = 0" by (simp add: np_exp_def)
  have "softmax_rows [[1000, 0]] = Inr [[1, 0]]"
    by (simp add: softmax_rows_Inr m np_exp_zero e clip_low_id)
  then show ?thesis by (simp add: softmax_rows_def)
qed

theorem softmax_rows_total_safe_witness:
  "[] \<notin> set [[0, - 2000 :: real]] \<and>
   (\<exists>res. softmax_rows [[0, - 2000]] = Inr res \<and> length res = 1 \<and> length (res ! 0) = 2 \<and>
      0 < res ! 0 ! 0 \<and> res ! 0 ! 0 \<le> 1 \<and> res ! 0 ! 1 = 0) \<and>
   length (sums_rows [[0, - 2000]]) = 1 \<and> list_all (\<lambda>s. 1 \<le> s) (sums_rows [[0, - 2000]])"
proof -
  have h: "[] \<notin> set [[0, - 2000 :: real]]" by simp
  have m: "row_max [0, - 2000] = 0" by (simp add: row_max_def)
  have u: "- 2000 \<le> - 1075 * ln (2::real)" using ln_2_less_1 by simp
  from softmax_rows_total_safe [OF h] obtain res where
    res: "softmax_rows [[0, - 2000]] = Inr res" "length res = 1"
    and rows: "\<forall>i < 1. length (res ! i) = length ([[0, - 2000 :: real]] ! i) \<and>
               (\<forall>j < length ([[0, - 2000 :: real]] ! i).
                  0 \<le> res ! i ! j \<and> res ! i ! j \<le> 1 \<and>
                  ([[0, - 2000]] ! i ! j = row_max ([[0, - 2000]] ! i) \<longrightarrow> 0 < res ! i ! j) \<and>
                  ([[0, - 2000]] ! i ! j - row_max ([[0, - 2000]] ! i) \<le> - 1075 * ln 2 \<longrightarrow>
                     res ! i ! j = 0))"
    and sums: "length (sums_rows [[0, - 2000]]) = 1" "\<forall>s \<in> set (sums_rows [[0, - 2000]]). 1 \<le> s"
    by auto
  from rows have l: "length (res ! 0) = 2" by simp
  from rows have "0 < res ! 0 ! 0 \<and> res ! 0 ! 0 \<le> 1"
    by (auto simp: m dest!: spec [of _ 0])
  moreover from rows u have "res ! 0 ! 1 = 0"
    by (auto simp: m dest!: spec [of _ "Suc 0"])
  ultimately show ?thesis using h res l sums by (auto simp: list_all_iff)
qed

section \<open>Proofs: narratives, risk classes and the rule-based class\<close>

lemma map_of_dict_set: "map_of (dict_set d k v) = (map_of d)(k \<mapsto> v)"
  by (induction d) (auto simp: fun_eq_iff)

lemma map_fst_dict_set:
  "map fst (dict_set d k v) = (if k \<in> set (map fst d) then map fst d else map fst d @ [k])"
  by (induction d) (auto simp: rev_image_eqI)

lemma keys_dict_set: "fst ` set (dict_set d k v) = insert k (fst ` set d)"
proof -
  have "set (map fst (dict_set d k v)) = insert k (set (map fst d))"
    unfolding map_fst_dict_set by auto
  then show ?thesis by simp
qed

lemma set_dict_set_subset: "set (dict_set d k v) \<subseteq> insert (k, v) (set d)"
  by (induction d) (auto split: if_splits)

lemma fold_dict_set_keys:
  "fst ` set (fold (\<lambda>x d. dict_set d (kf x) (vf x d)) xs dinit) = kf ` set xs \<union> fst ` set dinit"
  by (induction xs arbitrary: dinit) (auto simp: keys_dict_set)

lemma fold_dict_set_invariant:
  assumes "\<And>k v. (k, v) \<in> set dinit \<Longrightarrow> Q k v"
    and "\<And>x d. x \<in> set xs \<Longrightarrow> Q (kf x) (vf x d)"
    and "(k, v) \<in> set (fold (\<lambda>x d. dict_set d (kf x) (vf x d)) xs dinit)"
  shows "Q k v"
  using assms
proof (induction xs arbitrary: dinit)
  case Nil
  then show ?case by simp
next
  case (Cons x xs)
  show ?case
  proof (rule Cons.IH [of "dict_set dinit (kf x) (vf x dinit)"])
    fix k' v' assume "(k', v') \<in> set (dict_set dinit (kf x) (vf x dinit))"
    then have "(k', v') = (kf x, vf x dinit) \<or> (k', v') \<in> set dinit"
      using set_dict_set_subset [of dinit "kf x" "vf x dinit"] by auto
    then show "Q k' v'" using Cons.prems(1) Cons.prems(2) [of x dinit] by auto
  next
    fix y d assume "y \<in> set xs"
    then show "Q (kf y) (vf y d)" using Cons.prems(2) by simp
  next
    show "(k, v) \<in> set (fold (\<lambda>x d. dict_set d (kf x) (vf x d)) xs (dict_set dinit (kf x) (vf x dinit)))"
      using Cons.prems(3) by simp
  qed
qed

lemma expit_pos: "0 < expit z"
  by (simp add: expit_def add_pos_pos)

lemma expit_lt_one: "expit z < 1"
  by (simp add: expit_def add_pos_pos)

lemma positive_proba_range: "0 \<le> positive_proba e x \<and> positive_proba e x \<le> 1"
  using expit_pos expit_lt_one by (cases e) (auto simp: less_imp_le)

lemma predict_proba_range:
  assumes "p \<in> set (predict_proba M text)"
  shows "0 \<le> p \<and> p \<le> 1"
proof -
  from assms obtain e where
    "p = positive_proba e (narr_tfidf M text) \<or> p = 1 - positive_proba e (narr_tfidf M text)"
    by (auto simp: predict_proba_def Let_def split: if_splits)
  then show ?thesis using positive_proba_range [of e "narr_tfidf M text"] by auto
qed

lemma narratives_Inr:
  "length (narrative_labels P) \<le> length (predict_proba (narrative_model P) text) \<Longrightarrow>
   narratives P text =
     Inr (fold (\<lambda>x d. dict_set d (snd x)
                  \<lparr>prob = predict_proba (narrative_model P) text ! fst x,
                   flag = (1 / 10 \<le> predict_proba (narrative_model P) text ! fst x)\<rparr>)
            (enumerate 0 (narrative_labels P)) [])"
  by (simp add: narratives_def Let_def case_prod_unfold)

lemma narratives_Inr_iff:
  "(\<exists>d. narratives P text = Inr d) \<longleftrightarrow>
   length (narrative_labels P) \<le> length (predict_proba (narrative_model P) text)"
  by (simp add: narratives_def Let_def)

lemma narratives_entry:
  assumes "narratives P text = Inr d" and "(label, e) \<in> set d"
  shows "flag e = (1 / 10 \<le> prob e) \<and> prob e \<in> set (predict_proba (narrative_model P) text)"
proof -
  let ?probs = "predict_proba (narrative_model P) text"
  have len: "length (narrative_labels P) \<le> length ?probs"
    using assms(1) narratives_Inr_iff by blast
  have d: "d = fold (\<lambda>x d. dict_set d (snd x)
                  \<lparr>prob = ?probs ! fst x, flag = (1 / 10 \<le> ?probs ! fst x)\<rparr>)
            (enumerate 0 (narrative_labels P)) []"
    using assms(1) narratives_Inr [OF len] by simp
  show ?thesis
  proof (rule fold_dict_set_invariant [where Q = "\<lambda>k e. flag e = (1 / 10 \<le> prob e) \<and> prob e \<in> set ?probs"
        and dinit = "[]" and xs = "enumerate 0 (narrative_labels P)" and kf = snd
        and vf = "\<lambda>x d. \<lparr>prob = ?probs ! fst x, flag = (1 / 10 \<le> ?probs ! fst x)\<rparr>"])
    show "\<And>k v. (k, v) \<in> set [] \<Longrightarrow> flag v = (1 / 10 \<le> prob v) \<and> prob v \<in> set ?probs" by simp
    show "\<And>x d. x \<in> set (enumerate 0 (narrative_labels P)) \<Longrightarrow>
        flag \<lparr>prob = ?probs ! fst x, flag = 1 / 10 \<le> ?probs ! fst x\<rparr> =
          (1 / 10 \<le> prob \<lparr>prob = ?probs ! fst x, flag = 1 / 10 \<le> ?probs ! fst x\<rparr>) \<and>
        prob \<lparr>prob = ?probs ! fst x, flag = 1 / 10 \<le> ?probs ! fst x\<rparr> \<in> set ?probs"
      using len by (auto simp: in_set_enumerate_eq)
    show "(label, e) \<in> set (fold (\<lambda>x d. dict_set d (snd x)
                  \<lparr>prob = ?probs ! fst x, flag = (1 / 10 \<le> ?probs ! fst x)\<rparr>)
            (enumerate 0 (narrative_labels P)) [])"
      using assms(2) d by simp
  qed
qed

lemma narratives_keys:
  assumes "narratives P text = Inr d"
  shows "fst ` set d = set (narrative_labels P)"
proof -
  have len: "length (narrative_labels P) \<le> length (predict_proba (narrative_model P) text)"
    using assms narratives_Inr_iff by blast
  have "snd ` set (enumerate 0 (narrative_labels P)) = set (narrative_labels P)"
    using set_map [of snd "enumerate 0 (narrative_labels P)"] by simp
  moreover have d: "d = fold (\<lambda>x d. dict_set d (snd x)
                  \<lparr>prob = predict_proba (narrative_model P) text ! fst x,
                   flag = (1 / 10 \<le> predict_proba (narrative_model P) text ! fst x)\<rparr>)
            (enumerate 0 (narrative_labels P)) []"
    using assms narratives_Inr [OF len] by simp
  have "fst ` set d = snd ` set (enumerate 0 (narrative_labels P))"
    unfolding d by (simp add: fold_dict_set_keys)
  ultimately show ?thesis by simp
qed

text \<open>
  Claim C8, as amended.  For every text and every narrative label the served probability
  lies in \<open>[0, 1]\<close> and the served flag is \<open>probability \<ge> 0.10\<close>.  The bound \<open>0.10\<close> is a
  constant of \<^verbatim>\<open>_narratives\<close>: the \<^verbatim>\<open>narrative_threshold\<close> that the facade loads from the
  metadata is never consulted, so the serving threshold cannot be configured.  The
  offline prediction is \<open>probability \<ge> threshold\<close> for the threshold handed to
  \<^verbatim>\<open>evaluate_narrative_model\<close>, which the training run sets to \<open>0.5\<close>.
\<close>

theorem narrative_probability_and_flag:
  "(length (narrative_labels P) \<le> length (predict_proba (narrative_model P) text) \<longrightarrow>
      (\<exists>d. narratives P text = Inr d \<and> fst ` set d = set (narrative_labels P))) \<and>
   (\<forall>d label e. narratives P text = Inr d \<longrightarrow> (label, e) \<in> set d \<longrightarrow>
      0 \<le> prob e \<and> prob e \<le> 1 \<and> flag e = (1 / 10 \<le> prob e)) \<and>
   narratives (P\<lparr>narrative_threshold := \<theta>\<rparr>) text = narratives P text \<and>
   (\<forall>p \<in> set (predict_proba M text). 0 \<le> p \<and> p \<le> 1) \<and>
   (\<forall>i j. i < length X \<longrightarrow> j < length (predict_proba M (X ! i)) \<longrightarrow>
      narrative_y_pred M X \<theta> ! i ! j = (if \<theta> \<le> predict_proba M (X ! i) ! j then 1 else 0)) \<and>
   reporting_y_pred M X = narrative_y_pred M X (1 / 2)"
proof (intro conjI allI impI ballI)
  assume "length (narrative_labels P) \<le> length (predict_proba (narrative_model P) text)"
  then obtain d where d: "narratives P text = Inr d" using narratives_Inr_iff by blast
  with narratives_keys [OF d]
  show "\<exists>d. narratives P text = Inr d \<and> fst ` set d = set (narrative_labels P)" by blast
next
  fix d label e
  assume a: "narratives P text = Inr d" "(label, e) \<in> set d"
  from narratives_entry [OF a] predict_proba_range [of "prob e" "narrative_model P" "text"]
  show "0 \<le> prob e" "prob e \<le> 1" "flag e = (1 / 10 \<le> prob e)" by auto
next
  show "narratives (P\<lparr>narrative_threshold := \<theta>\<rparr>) text = narratives P text"
    by (simp add: narratives_def Let_def)
next
  fix p assume "p \<in> set (predict_proba M text)"
  then show "0 \<le> p" "p \<le> 1" using predict_proba_range by auto
next
  fix i j assume "i < length X" "j < length (predict_proba M (X ! i))"
  then show "narrative_y_pred M X \<theta> ! i ! j = (if \<theta> \<le> predict_proba M (X ! i) ! j then 1 else 0)"
    by (simp add: narrative_y_pred_def)
next
  show "reporting_y_pred M X = narrative_y_pred M X (1 / 2)"
    by (simp add: reporting_y_pred_def)
qed

lemma map_of_fold_dict_set_other:
  "k \<notin> kf ` set xs \<Longrightarrow>
   map_of (fold (\<lambda>x d. dict_set d (kf x) (vf x d)) xs dinit) k = map_of dinit k"
  by (induction xs arbitrary: dinit) (auto simp: map_of_dict_set)

lemma argmax_Inr:
  assumes "xs \<noteq> []"
  shows "\<exists>i. argmax xs = Inr i \<and> i < length xs"
proof -
  have "row_max xs \<in> set xs" by (rule row_max_mem [OF assms])
  then have "takeWhile (\<lambda>x. x \<noteq> row_max xs) xs \<noteq> xs"
    by (auto simp: takeWhile_eq_all_conv)
  then have "length (takeWhile (\<lambda>x. x \<noteq> row_max xs) xs) \<noteq> length xs"
    by (metis takeWhile_eq_take take_all_iff le_refl)
  with length_takeWhile_le [of "\<lambda>x. x \<noteq> row_max xs" xs]
  have "length (takeWhile (\<lambda>x. x \<noteq> row_max xs) xs) < length xs" by simp
  with assms show ?thesis by (simp add: argmax_def)
qed

lemma risk_prob_map_keys:
  "fst ` set (risk_prob_map cs probs) = set (map fst (zip cs probs)) \<union> set expected_classes"
proof -
  have "risk_prob_map cs probs =
      fold (\<lambda>x d. dict_set d (fst x) (snd x)) (zip cs probs)
        (map (\<lambda>label. (label, 0)) expected_classes)"
    by (simp add: risk_prob_map_def case_prod_unfold)
  then show ?thesis by (simp add: fold_dict_set_keys image_image)
qed

lemma risk_prob_map_default:
  assumes "c \<in> set expected_classes" and "c \<notin> set (map fst (zip cs probs))"
  shows "map_of (risk_prob_map cs probs) c = Some 0"
proof -
  have eq: "risk_prob_map cs probs =
      fold (\<lambda>x d. dict_set d (fst x) (snd x)) (zip cs probs)
        (map (\<lambda>label. (label, 0)) expected_classes)"
    by (simp add: risk_prob_map_def case_prod_unfold)
  have "map_of (risk_prob_map cs probs) c = map_of (map (\<lambda>label. (label, 0::real)) expected_classes) c"
    unfolding eq using assms(2) by (intro map_of_fold_dict_set_other) simp
  also have "\<dots> = Some 0"
    using assms(1) by (simp add: map_of_map_restrict restrict_map_def)
  finally show ?thesis .
qed

lemma risk_model_preds_prob_map:
  assumes "risk_model_preds P text = Inr (m, pred)"
  shows "m = risk_prob_map (case risk_classes (risk_model P) of
                              None \<Rightarrow> expected_classes | Some cs \<Rightarrow> cs)
             (risk_predict_proba (risk_model P) text)"
  using assms
  by (auto simp: risk_model_preds_def Let_def expected_classes_def
      split: sum.splits if_splits option.splits)

lemma risk_model_preds_Inr:
  assumes "risk_predict_proba (risk_model P) text \<noteq> []"
    and "case risk_classes (risk_model P) of
           None \<Rightarrow> length (risk_predict_proba (risk_model P) text) \<le> 3
         | Some cs \<Rightarrow> cs = [] \<or> length (risk_predict_proba (risk_model P) text) \<le> length cs"
  shows "\<exists>m pred. risk_model_preds P text = Inr (m, pred)"
proof -
  from argmax_Inr [OF assms(1)] obtain i where
    i: "argmax (risk_predict_proba (risk_model P) text) = Inr i"
       "i < length (risk_predict_proba (risk_model P) text)" by blast
  show ?thesis
    using assms(2) i
    by (auto simp: risk_model_preds_def Let_def split: option.splits)
qed

text \<open>
  Claim C10.  Whenever \<^verbatim>\<open>_risk_model_preds\<close> returns, its probability map has an entry for
  each of \<^verbatim>\<open>Helpful\<close>, \<^verbatim>\<open>Harmless\<close> and \<^verbatim>\<open>Harmful\<close>, and a class that the fitted model does
  not emit has probability \<open>0\<close>; it returns for every text on which the risk model gives
  a probability for each of its classes.
\<close>

theorem risk_probs_cover_expected_classes:
  "(risk_predict_proba (risk_model P) text \<noteq> [] \<and>
    (case risk_classes (risk_model P) of
       None \<Rightarrow> length (risk_predict_proba (risk_model P) text) \<le> 3
     | Some cs \<Rightarrow> cs = [] \<or> length (risk_predict_proba (risk_model P) text) \<le> length cs) \<longrightarrow>
      (\<exists>m pred. risk_model_preds P text = Inr (m, pred))) \<and>
   (\<forall>m pred. risk_model_preds P text = Inr (m, pred) \<longrightarrow>
      map_of m ''Helpful'' \<noteq> None \<and> map_of m ''Harmless'' \<noteq> None \<and>
      map_of m ''Harmful'' \<noteq> None \<and>
      (\<forall>c \<in> {''Helpful'', ''Harmless'', ''Harmful''}.
         c \<notin> set (case risk_classes (risk_model P) of
                     None \<Rightarrow> expected_classes | Some cs \<Rightarrow> cs) \<longrightarrow>
         map_of m c = Some 0))"
proof (intro conjI allI impI ballI)
  assume "risk_predict_proba (risk_model P) text \<noteq> [] \<and>
    (case risk_classes (risk_model P) of
       None \<Rightarrow> length (risk_predict_proba (risk_model P) text) \<le> 3
     | Some cs \<Rightarrow> cs = [] \<or> length (risk_predict_proba (risk_model P) text) \<le> length cs)"
  then show "\<exists>m pred. risk_model_preds P text = Inr (m, pred)"
    using risk_model_preds_Inr by blast
next
  fix m pred
  assume a: "risk_model_preds P text = Inr (m, pred)"
  let ?cs = "case risk_classes (risk_model P) of None \<Rightarrow> expected_classes | Some cs \<Rightarrow> cs"
  let ?probs = "risk_predict_proba (risk_model P) text"
  have m: "m = risk_prob_map ?cs ?probs" by (rule risk_model_preds_prob_map [OF a])
  have keys: "set expected_classes \<subseteq> fst ` set m"
    unfolding m risk_prob_map_keys by simp
  have dom: "\<And>c. c \<in> set expected_classes \<Longrightarrow> map_of m c \<noteq> None"
    using keys by (metis subsetD map_of_eq_None_iff)
  show "map_of m ''Helpful'' \<noteq> None" "map_of m ''Harmless'' \<noteq> None"
    "map_of m ''Harmful'' \<noteq> None"
    by (rule dom, simp add: expected_classes_def)+
  fix c assume c: "c \<in> {''Helpful'', ''Harmless'', ''Harmful''}" "c \<notin> set ?cs"
  have "c \<notin> set (map fst (zip ?cs ?probs))"
    using c(2) by (auto dest: set_zip_leftD)
  moreover have "c \<in> set expected_classes" using c(1) by (auto simp: expected_classes_def)
  ultimately show "map_of m c = Some 0" unfolding m by (intro risk_prob_map_default)
qed

theorem risk_probs_cover_expected_classes_witness:
  "risk_predict_proba (risk_model sample_predictor) ''hello'' \<noteq> [] \<and>
   risk_classes (risk_model sample_predictor) = Some [''Harmful'', ''Helpful''] \<and>
   (\<exists>m pred. risk_model_preds sample_predictor ''hello'' = Inr (m, pred) \<and>
      map_of m ''Helpful'' \<noteq> None \<and> map_of m ''Harmless'' = Some 0 \<and>
      map_of m ''Harmful'' \<noteq> None)"
proof -
  have h: "risk_predict_proba (risk_model sample_predictor) ''hello'' \<noteq> []"
    "risk_classes (risk_model sample_predictor) = Some [''Harmful'', ''Helpful'']"
    by (simp_all add: sample_predictor_def sample_risk_model_def)
  have l: "length (risk_predict_proba (risk_model sample_predictor) ''hello'') = 2"
    by (simp add: sample_predictor_def sample_risk_model_def)
  from risk_probs_cover_expected_classes [of sample_predictor "''hello''"] h l
  show ?thesis by (auto simp: expected_classes_def)
qed

lemma role_distribution_Inr:
  assumes "pipeline (role_model P) = Some p" and "role_estimators p \<noteq> []"
    and "length (role_buckets P) \<le> length (role_estimators p)"
  shows "\<exists>d. role_distribution P text = Inr d"
proof -
  have f: "fitted (role_model P)" using assms(1,2) by (simp add: fitted_def)
  from fitted_predict_Inr [OF f, of "[text]"] assms(1) obtain res where
    res: "predict (role_model P) [text] = Inr res"
    and sm: "softmax_rows (pipeline_predict p [text]) = Inr res" by auto
  from softmax_rows_length [OF sm] obtain r where r: "res = [r]"
    by (cases res) (auto simp: pipeline_predict_def)
  have "length r = length (role_estimators p)"
    using softmax_rows_row_length [OF sm, of 0] r by (simp add: pipeline_predict_def)
  then show ?thesis
    using role_distribution_of_distribution [of P "text" r] res r assms(3)
    by (simp add: dist_of_probs_def)
qed

lemma top_contributions_from_vec_Inr:
  assumes "list_all (\<lambda>(i, d). i < length names) vec"
  shows "\<exists>r. top_contributions_from_vec np_argsort vec coefs names k = Inr r"
  using assms
  by (auto simp: top_contributions_from_vec_def Let_def list_all_iff)

lemma risk_top_ngrams_of_Inr:
  assumes "case risk_vectorizer (risk_model P) of
         None \<Rightarrow> True
       | Some vec \<Rightarrow> within_columns vec text"
  shows "\<exists>r. risk_top_ngrams_of np_argsort P text = Inr r"
  using assms top_contributions_from_vec_Inr
  by (auto simp: risk_top_ngrams_of_def within_columns_def split: option.splits)

lemma narrative_top_loop_Inr:
  assumes "list_all (\<lambda>(i, d). i < length names) vec"
  shows "\<exists>r. narrative_top_loop np_argsort vec names zs out = Inr r"
proof (induction zs arbitrary: out)
  case Nil
  then show ?case by simp
next
  case (Cons z zs)
  obtain label est where z: "z = (label, est)" by (cases z)
  show ?case
  proof (cases est)
    case (LogisticRegression w b)
    from top_contributions_from_vec_Inr [OF assms] obtain c where
      "top_contributions_from_vec np_argsort vec w names 6 = Inr c" by blast
    then show ?thesis using Cons.IH z LogisticRegression by simp
  next
    case (ConstantPredictor y)
    then show ?thesis using Cons.IH z by simp
  qed
qed

lemma narrative_top_ngrams_of_Inr:
  assumes "within_columns (narr_vectorizer (narrative_model P)) text"
  shows "\<exists>r. narrative_top_ngrams_of np_argsort P text = Inr r"
  using assms narrative_top_loop_Inr
  by (simp add: narrative_top_ngrams_of_def within_columns_def Let_def)

lemma role_top_loop_Inr:
  assumes "list_all (\<lambda>(i, d). i < length names) vec"
  shows "\<exists>r. role_top_loop np_argsort vec names bucket_to_est roles out = Inr r"
proof (induction roles arbitrary: out)
  case Nil
  then show ?case by simp
next
  case (Cons role roles)
  show ?case
  proof (cases "map_of bucket_to_est role")
    case None
    then show ?thesis using Cons.IH by simp
  next
    case (Some est)
    from top_contributions_from_vec_Inr [OF assms] obtain c where
      "top_contributions_from_vec np_argsort vec (coef est) names 6 = Inr c" by blast
    then show ?thesis using Cons.IH Some by simp
  qed
qed

lemma role_top_ngrams_of_Inr:
  assumes "pipeline (role_model P) = Some p"
    and "length (role_estimators p) \<le> length (role_buckets P)"
    and "within_columns (role_vectorizer p) text"
  shows "\<exists>r. role_top_ngrams_of np_argsort P text top_roles = Inr r"
  using assms role_top_loop_Inr
  by (simp add: role_top_ngrams_of_def within_columns_def Let_def)

lemma role_top_ngrams_of_Inl:
  assumes "pipeline (role_model P) = Some p"
    and "length (role_buckets P) < length (role_estimators p)"
  shows "role_top_ngrams_of np_argsort P text top_roles = Inl IndexError"
  using assms by (simp add: role_top_ngrams_of_def)

lemma analyze_succeeds:
  assumes "strip (post_text request) \<noteq> []"
    and "artifacts_consistent P (strip (post_text request))"
  shows "\<exists>a. analyze np_argsort P request = Inr a"
proof -
  let ?t = "strip (post_text request)"
  from assms(2) obtain narrs where n: "narratives P ?t = Inr narrs"
    using narratives_Inr_iff [of P ?t] by (auto simp: artifacts_consistent_def)
  from assms(2) obtain p where p: "pipeline (role_model P) = Some p"
    "role_estimators p \<noteq> []" "length (role_buckets P) = length (role_estimators p)"
    "within_columns (role_vectorizer p) ?t"
    by (auto simp: artifacts_consistent_def split: option.splits)
  from p obtain d where d: "role_distribution P ?t = Inr d"
    using role_distribution_Inr [of P p ?t] by auto
  from assms(2) have c3: "risk_predict_proba (risk_model P) ?t \<noteq> []"
    and c4: "case risk_classes (risk_model P) of
           None \<Rightarrow> length (risk_predict_proba (risk_model P) ?t) \<le> 3
         | Some cs \<Rightarrow> cs = [] \<or> length (risk_predict_proba (risk_model P) ?t) \<le> length cs"
    and c5: "case risk_vectorizer (risk_model P) of
         None \<Rightarrow> True
       | Some vec \<Rightarrow> within_columns vec ?t"
    and c6: "within_columns (narr_vectorizer (narrative_model P)) ?t"
    by (simp_all add: artifacts_consistent_def)
  from risk_model_preds_Inr [OF c3 c4] obtain m pred where
    m: "risk_model_preds P ?t = Inr (m, pred)" by blast
  from risk_top_ngrams_of_Inr [OF c5] obtain r where
    r: "risk_top_ngrams_of np_argsort P ?t = Inr r" by blast
  from narrative_top_ngrams_of_Inr [OF c6] obtain nt where
    nt: "narrative_top_ngrams_of np_argsort P ?t = Inr nt" by blast
  let ?top = "map fst (take 5 (sort_key (\<lambda>x. - snd x)
                 (map (\<lambda>(k, v). (k, py_round (v * 100) 4)) d)))"
  from role_top_ngrams_of_Inr [OF p(1) _ p(4)] p(3) obtain rt where
    rt: "role_top_ngrams_of np_argsort P ?t ?top = Inr rt" by force
  show ?thesis using assms(1) n d m r nt rt by (simp add: analyze_def Let_def)
qed

lemma analyze_risk_class:
  assumes "analyze np_argsort P request = Inr a"
  shows "\<exists>narrs. narratives P (strip (post_text request)) = Inr narrs \<and>
           risk_class a = risk_rule_based narrs"
  using assms
  by (auto simp: analyze_def Let_def split: if_splits sum.splits prod.splits)

lemma narratives_risk_model_update:
  "narratives (P\<lparr>risk_model := rm\<rparr>) text = narratives P text"
  by (simp add: narratives_def Let_def)

lemma risk_rule_based_cases:
  "risk_rule_based n =
     (if flagged n ''toxic_culture'' \<or> flagged n ''elitism'' \<or>
         flagged n ''credibility_overclaim'' \<or> flagged n ''culture_misalignment''
      then ''Harmful''
      else if flagged n ''burnout'' then ''Harmless'' else ''Helpful'')"
  by (simp add: risk_rule_based_def harmful_labels_def)

text \<open>
  Claim C3.  For every assignment of narrative flags the rule-based class is one of
  \<^verbatim>\<open>Helpful\<close>, \<^verbatim>\<open>Harmless\<close>, \<^verbatim>\<open>Harmful\<close>: \<^verbatim>\<open>Harmful\<close> if one of \<^verbatim>\<open>toxic_culture\<close>, \<^verbatim>\<open>elitism\<close>,
  \<^verbatim>\<open>credibility_overclaim\<close>, \<^verbatim>\<open>culture_misalignment\<close> is flagged, else \<^verbatim>\<open>Harmless\<close> if
  \<^verbatim>\<open>burnout\<close> is flagged, else \<^verbatim>\<open>Helpful\<close>.  It depends on these five flags only, and the
  class that \<^verbatim>\<open>analyze\<close> reports is the same whatever the statistical risk model is.
\<close>

theorem risk_rule_based_priority:
  "risk_rule_based n \<in> {''Helpful'', ''Harmless'', ''Harmful''} \<and>
   risk_rule_based n =
     (if flagged n ''toxic_culture'' \<or> flagged n ''elitism'' \<or>
         flagged n ''credibility_overclaim'' \<or> flagged n ''culture_misalignment''
      then ''Harmful''
      else if flagged n ''burnout'' then ''Harmless'' else ''Helpful'') \<and>
   ((\<forall>lbl \<in> set (''burnout'' # harmful_labels). flagged n' lbl = flagged n lbl) \<longrightarrow>
      risk_rule_based n' = risk_rule_based n) \<and>
   (\<forall>a. analyze np_argsort P request = Inr a \<longrightarrow>
      (\<exists>narrs. narratives P (strip (post_text request)) = Inr narrs \<and>
         risk_class a = risk_rule_based narrs) \<and>
      (\<forall>rm a'. analyze np_argsort (P\<lparr>risk_model := rm\<rparr>) request = Inr a' \<longrightarrow>
         risk_class a' = risk_class a))"
proof (intro conjI allI impI)
  show "risk_rule_based n \<in> {''Helpful'', ''Harmless'', ''Harmful''}"
    by (simp add: risk_rule_based_def)
  show "risk_rule_based n =
     (if flagged n ''toxic_culture'' \<or> flagged n ''elitism'' \<or>
         flagged n ''credibility_overclaim'' \<or> flagged n ''culture_misalignment''
      then ''Harmful''
      else if flagged n ''burnout'' then ''Harmless'' else ''Helpful'')"
    by (rule risk_rule_based_cases)
next
  assume "\<forall>lbl \<in> set (''burnout'' # harmful_labels). flagged n' lbl = flagged n lbl"
  then show "risk_rule_based n' = risk_rule_based n"
    by (simp add: risk_rule_based_def harmful_labels_def)
next
  fix a assume a: "analyze np_argsort P request = Inr a"
  from analyze_risk_class [OF a]
  show "\<exists>narrs. narratives P (strip (post_text request)) = Inr narrs \<and>
         risk_class a = risk_rule_based narrs" .
  fix rm a' assume a': "analyze np_argsort (P\<lparr>risk_model := rm\<rparr>) request = Inr a'"
  from analyze_risk_class [OF a] analyze_risk_class [OF a']
  show "risk_class a' = risk_class a"
    by (auto simp: narratives_risk_model_update)
qed

lemma strip_layoffs: "strip ''layoffs'' = ''layoffs''"
  by (simp add: strip_def py_isspace_def)

lemma sample_consistent: "artifacts_consistent sample_predictor ''layoffs''"
  by (simp add: artifacts_consistent_def within_columns_def sample_predictor_def
      sample_role_model_def sample_narrative_model_def sample_risk_model_def predict_proba_def)

lemma other_consistent:
  "artifacts_consistent (sample_predictor\<lparr>risk_model := other_risk_model\<rparr>) ''layoffs''"
  by (simp add: artifacts_consistent_def within_columns_def sample_predictor_def
      sample_role_model_def sample_narrative_model_def sample_risk_model_def
      other_risk_model_def predict_proba_def)

lemma sample_narratives_toxic:
  "narratives sample_predictor ''layoffs'' = Inr narrs \<Longrightarrow> flagged narrs ''toxic_culture''"
  by (auto simp: narratives_def Let_def sample_predictor_def sample_narrative_model_def
      predict_proba_def enumerate_eq_zip upt_rec flagged_def split: if_splits)

theorem risk_rule_based_priority_witness:
  "list_all (\<lambda>lbl. flagged [(''burnout'', \<lparr>prob = 1, flag = True\<rparr>), (''other'', \<lparr>prob = 1, flag = True\<rparr>)] lbl =
      flagged [(''burnout'', \<lparr>prob = 1 / 2, flag = True\<rparr>)] lbl)
      (''burnout'' # harmful_labels) \<and>
   risk_rule_based [(''burnout'', \<lparr>prob = 1 / 2, flag = True\<rparr>)] = ''Harmless'' \<and>
   risk_rule_based [(''burnout'', \<lparr>prob = 1 / 2, flag = True\<rparr>)] =
     risk_rule_based [(''burnout'', \<lparr>prob = 1, flag = True\<rparr>), (''other'', \<lparr>prob = 1, flag = True\<rparr>)] \<and>
   (\<exists>a a'. analyze stable_argsort sample_predictor sample_request = Inr a \<and>
      analyze stable_argsort (sample_predictor\<lparr>risk_model := other_risk_model\<rparr>) sample_request
        = Inr a' \<and>
      risk_class a = ''Harmful'' \<and> risk_class a' = risk_class a)"
proof -
  let ?n = "[(''burnout'', \<lparr>prob = 1 / 2, flag = True\<rparr>)]"
  let ?n' = "[(''burnout'', \<lparr>prob = 1, flag = True\<rparr>), (''other'', \<lparr>prob = 1, flag = True\<rparr>)]"
  have eqf: "\<forall>lbl \<in> set (''burnout'' # harmful_labels). flagged ?n' lbl = flagged ?n lbl"
    by (simp add: flagged_def harmful_labels_def)
  have t: "strip (post_text sample_request) = ''layoffs''"
    by (simp add: sample_request_def strip_layoffs)
  from analyze_succeeds [of sample_request sample_predictor stable_argsort] sample_consistent t
  obtain a where a: "analyze stable_argsort sample_predictor sample_request = Inr a" by auto
  from analyze_succeeds [of sample_request "sample_predictor\<lparr>risk_model := other_risk_model\<rparr>"
      stable_argsort] other_consistent t
  obtain a' where a': "analyze stable_argsort (sample_predictor\<lparr>risk_model := other_risk_model\<rparr>)
      sample_request = Inr a'"
    by auto
  note thm1 = risk_rule_based_priority [of ?n ?n' stable_argsort sample_predictor sample_request]
  from thm1 a obtain narrs where
    narrs: "narratives sample_predictor ''layoffs'' = Inr narrs"
      "risk_class a = risk_rule_based narrs"
    unfolding t by blast
  have "risk_class a' = risk_class a" using thm1 a a' by blast
  moreover have "risk_class a = ''Harmful''"
    using sample_narratives_toxic [OF narrs(1)] narrs(2) thm1 [THEN conjunct2, THEN conjunct1]
    by (simp add: risk_rule_based_def harmful_labels_def)
  moreover have "risk_rule_based ?n = ''Harmless''"
    by (simp add: risk_rule_based_def harmful_labels_def flagged_def)
  moreover have "risk_rule_based ?n = risk_rule_based ?n'"
    using thm1 eqf by simp
  ultimately show ?thesis using a a' eqf by (auto simp: list_all_iff)
qed

theorem narrative_probability_and_flag_witness:
  "length (narrative_labels sample_predictor) \<le>
     length (predict_proba (narrative_model sample_predictor) ''layoffs'') \<and>
   (\<exists>d e. narratives sample_predictor ''layoffs'' = Inr d \<and> (''burnout'', e) \<in> set d \<and>
      0 \<le> prob e \<and> prob e \<le> 1 \<and> flag e = (1 / 10 \<le> prob e) \<and>
      narratives (sample_predictor\<lparr>narrative_threshold := 9 / 10\<rparr>) ''layoffs'' = Inr d) \<and>
   narrative_y_pred sample_narrative_model [''layoffs''] (9 / 10) ! 0 ! 0 = 1 \<and>
   narrative_y_pred sample_narrative_model [''layoffs''] (9 / 10) ! 0 ! 2 = 0 \<and>
   reporting_y_pred sample_narrative_model [''layoffs''] =
     narrative_y_pred sample_narrative_model [''layoffs''] (1 / 2)"
proof -
  note thm1 = narrative_probability_and_flag [of sample_predictor "''layoffs''" "9 / 10"
      sample_narrative_model "[''layoffs'']"]
  have len: "length (narrative_labels sample_predictor) \<le>
     length (predict_proba (narrative_model sample_predictor) ''layoffs'')"
    by (simp add: sample_predictor_def sample_narrative_model_def predict_proba_def)
  with thm1 obtain d where d: "narratives sample_predictor ''layoffs'' = Inr d"
    "fst ` set d = set (narrative_labels sample_predictor)" by blast
  have "''burnout'' \<in> fst ` set d" unfolding d(2) by (simp add: sample_predictor_def)
  then obtain e where e: "(''burnout'', e) \<in> set d" by auto
  from thm1 d(1) e have r: "0 \<le> prob e \<and> prob e \<le> 1 \<and> flag e = (1 / 10 \<le> prob e)" by blast
  from thm1 d(1)
  have u: "narratives (sample_predictor\<lparr>narrative_threshold := 9 / 10\<rparr>) ''layoffs'' = Inr d"
    by simp
  have pp: "predict_proba sample_narrative_model ''layoffs'' =
      [1, expit (decision_function [1] 0 [1]), 0, 0, 0]"
    by (simp add: sample_narrative_model_def predict_proba_def)
  from thm1 have yp: "\<forall>i j. i < length [''layoffs''] \<longrightarrow>
      j < length (predict_proba sample_narrative_model ([''layoffs''] ! i)) \<longrightarrow>
      narrative_y_pred sample_narrative_model [''layoffs''] (9 / 10) ! i ! j =
        (if 9 / 10 \<le> predict_proba sample_narrative_model ([''layoffs''] ! i) ! j then 1 else 0)"
    by blast
  have y0: "narrative_y_pred sample_narrative_model [''layoffs''] (9 / 10) ! 0 ! 0 = 1"
    using yp [rule_format, of 0 0] by (simp add: pp)
  have y2: "narrative_y_pred sample_narrative_model [''layoffs''] (9 / 10) ! 0 ! 2 = 0"
    using yp [rule_format, of 0 2] by (simp add: pp)
  from thm1 have rp: "reporting_y_pred sample_narrative_model [''layoffs''] =
     narrative_y_pred sample_narrative_model [''layoffs''] (1 / 2)" by blast
  from len d(1) e r u y0 y2 rp show ?thesis by blast
qed

lemma exp_one_less_9: "exp (1::real) < 9"
proof -
  have "exp (1::real) \<le> 1 + 1 + 1\<^sup>2" by (rule exp_bound) simp_all
  then show ?thesis by simp
qed

lemma expit_one_bounds: "1 / 10 \<le> expit 1 \<and> expit 1 < 9 / 10"
proof -
  have "exp (- 1 :: real) = 1 / exp 1" by (simp add: exp_minus inverse_eq_divide)
  moreover have "(1::real) / 9 < 1 / exp 1" using exp_one_less_9 by (simp add: field_simps)
  ultimately have e: "(1::real) / 9 < exp (- 1)" by simp
  have "expit 1 < 9 / 10"
    unfolding expit_def using e by (simp add: field_simps)
  moreover have "exp (- 1 :: real) \<le> 1" by simp
  then have "(0::real) < 1 + exp (- 1)" "1 + exp (- 1 :: real) \<le> 10"
    by (simp add: add_pos_pos, linarith)
  then have "1 / 10 \<le> expit 1"
    unfolding expit_def by (simp add: field_simps)
  ultimately show ?thesis by simp
qed

text \<open>
  The claim as stated fails in its last clause: with a serving threshold of \<open>0.9\<close>
  configured in the metadata, a narrative of probability \<open>expit 1\<close> (about \<open>0.73\<close>, below
  \<open>0.9\<close>) is flagged all the same.
\<close>

theorem configured_threshold_counterexample:
  "narrative_threshold (sample_predictor\<lparr>narrative_threshold := 9 / 10\<rparr>) = 9 / 10 \<and>
   map_of (projr (narratives (sample_predictor\<lparr>narrative_threshold := 9 / 10\<rparr>) ''layoffs''))
      ''burnout'' = Some \<lparr>prob = expit 1, flag = True\<rparr> \<and>
   expit 1 < 9 / 10"
proof -
  have "narratives (sample_predictor\<lparr>narrative_threshold := 9 / 10\<rparr>) ''layoffs'' =
     Inr [(''toxic_culture'', \<lparr>prob = 1, flag = True\<rparr>),
          (''burnout'', \<lparr>prob = expit 1, flag = True\<rparr>),
          (''elitism'', \<lparr>prob = 0, flag = False\<rparr>),
          (''credibility_overclaim'', \<lparr>prob = 0, flag = False\<rparr>),
          (''culture_misalignment'', \<lparr>prob = 0, flag = False\<rparr>)]"
    using expit_one_bounds
    by (simp add: narratives_def Let_def sample_predictor_def sample_narrative_model_def
        predict_proba_def decision_function_def enumerate_eq_zip upt_rec)
  then show ?thesis using expit_one_bounds by simp
qed

section \<open>Proofs: comparing a text with itself\<close>

lemma py_round_zero: "py_round 0 n = 0"
  by (simp add: py_round_def)

lemma distinct_keys_dict_set:
  "distinct (map fst d) \<Longrightarrow> distinct (map fst (dict_set d k v))"
  by (simp add: map_fst_dict_set)

lemma distinct_keys_fold_dict_set:
  "distinct (map fst dinit) \<Longrightarrow>
   distinct (map fst (fold (\<lambda>x d. dict_set d (kf x) (vf x d)) xs dinit))"
  by (induction xs arbitrary: dinit) (simp_all add: distinct_keys_dict_set)

lemma dict_get_dict_set:
  "dict_get (dict_set d k v) k' dflt = (if k' = k then v else dict_get d k' dflt)"
  by (simp add: dict_get_def map_of_dict_set)



text \<open>The loop of \<^verbatim>\<open>_compare_top_phrases\<close> with sign \<open>c\<close>.\<close>

lemma dict_get_fold_accumulate:
  "dict_get (fold (\<lambda>x m. dict_set m (fst x) (dict_get m (fst x) 0 + c * snd x)) xs dinit) k 0 =
   dict_get dinit k 0 + (c::real) * sum_list (map snd (filter (\<lambda>x. fst x = k) xs))"
proof (induction xs arbitrary: dinit)
  case Nil
  then show ?case by simp
next
  case (Cons x xs)
  show ?case
    by (simp only: fold_simps Cons.IH, simp add: dict_get_dict_set algebra_simps)
qed


lemma dict_value_via_get:
  assumes "distinct (map fst d)" and "(k, v) \<in> set d"
  shows "dict_get d k dflt = v"
  using assms by (simp add: dict_get_def)

lemma compare_top_phrases_same_merged:
  assumes "(k, v) \<in> set (fold (\<lambda>x m. dict_set m (fst x) (dict_get m (fst x) 0 + snd x)) xs
                 (fold (\<lambda>x m. dict_set m (fst x) (dict_get m (fst x) 0 + (- 1) * snd x)) xs []))"
  shows "v = (0::real)"
proof -
  let ?m1 = "fold (\<lambda>x m. dict_set m (fst x) (dict_get m (fst x) 0 + (- 1) * snd x)) xs []"
  let ?m2 = "fold (\<lambda>x m. dict_set m (fst x) (dict_get m (fst x) 0 + 1 * snd x)) xs ?m1"
  have d1: "distinct (map fst ?m1)" by (rule distinct_keys_fold_dict_set) simp
  have d2: "distinct (map fst ?m2)" by (rule distinct_keys_fold_dict_set [OF d1])
  have "(k, v) \<in> set ?m2" using assms by simp
  then have "v = dict_get ?m2 k 0" using dict_value_via_get [OF d2] by simp
  also have "\<dots> = dict_get ?m1 k 0 + 1 * sum_list (map snd (filter (\<lambda>x. fst x = k) xs))"
    by (rule dict_get_fold_accumulate)
  also have "dict_get ?m1 k 0 = dict_get [] k 0 + (- 1) * sum_list (map snd (filter (\<lambda>x. fst x = k) xs))"
    by (rule dict_get_fold_accumulate)
  finally show ?thesis by (simp add: dict_get_def)
qed

lemma compare_top_phrases_unfold:
  "compare_top_phrases bs vs =
     take 10 (sort_key (\<lambda>x. - \<bar>snd x\<bar>)
       (fold (\<lambda>x m. dict_set m (fst x) (dict_get m (fst x) 0 + snd x)) vs
          (fold (\<lambda>x m. dict_set m (fst x) (dict_get m (fst x) 0 + (- 1) * snd x)) bs [])))"
  by (simp add: compare_top_phrases_def Let_def case_prod_unfold)

lemma compare_top_phrases_same_zero:
  assumes "(k, v) \<in> set (compare_top_phrases xs xs)"
  shows "v = 0"
proof -
  from assms have "(k, v) \<in> set (fold (\<lambda>x m. dict_set m (fst x) (dict_get m (fst x) 0 + snd x)) xs
                 (fold (\<lambda>x m. dict_set m (fst x) (dict_get m (fst x) 0 + (- 1) * snd x)) xs []))"
    unfolding compare_top_phrases_unfold by (auto dest: in_set_takeD)
  then show ?thesis by (rule compare_top_phrases_same_merged)
qed

lemma compare_top_phrases_keys:
  "fst ` set (compare_top_phrases bs vs) \<subseteq> fst ` set bs \<union> fst ` set vs"
proof -
  have "set (compare_top_phrases bs vs) \<subseteq>
      set (fold (\<lambda>x m. dict_set m (fst x) (dict_get m (fst x) 0 + snd x)) vs
          (fold (\<lambda>x m. dict_set m (fst x) (dict_get m (fst x) 0 + (- 1) * snd x)) bs []))"
    unfolding compare_top_phrases_unfold by (auto dest: in_set_takeD)
  then have "fst ` set (compare_top_phrases bs vs) \<subseteq>
      fst ` set (fold (\<lambda>x m. dict_set m (fst x) (dict_get m (fst x) 0 + snd x)) vs
          (fold (\<lambda>x m. dict_set m (fst x) (dict_get m (fst x) 0 + (- 1) * snd x)) bs []))"
    by (rule image_mono)
  then show ?thesis by (simp add: fold_dict_set_keys Un_commute)
qed


lemma last_dropWhile_eq:
  "dropWhile P xs \<noteq> [] \<Longrightarrow> last (dropWhile P xs) = last xs"
  by (metis last_appendR takeWhile_dropWhile_id)



lemma strip_fixed:
  assumes "s = [] \<or> (\<not> py_isspace (hd s) \<and> \<not> py_isspace (last s))"
  shows "strip s = s"
proof (cases "s = []")
  case True
  then show ?thesis by (simp add: strip_def)
next
  case False
  with assms have h: "\<not> py_isspace (hd s)" and l: "\<not> py_isspace (last s)" by auto
  have 1: "dropWhile py_isspace s = s" using h by (simp add: dropWhile_eq_self_iff)
  have "hd (rev s) = last s" using False by (simp add: hd_rev)
  then have 2: "dropWhile py_isspace (rev s) = rev s" using l by (simp add: dropWhile_eq_self_iff)
  show ?thesis by (simp add: strip_def 1 2)
qed












lemma risk_delta_same:
  "fold (\<lambda>k d. dict_set d k (py_round (dict_get m k 0 - dict_get m k 0) 6))
     [''Helpful'', ''Harmless'', ''Harmful''] [] =
   [(''Helpful'', 0), (''Harmless'', 0), (''Harmful'', 0)]"
  by (simp add: py_round_zero)















section \<open>Proofs: retrieval\<close>

text \<open>Ascending order on (value, index) pairs, the index deciding between equal values.\<close>

lemma insort_key_value_index:
  fixes x :: "real \<times> nat"
  assumes "sorted_wrt (\<lambda>a b. fst a < fst b \<or> (fst a = fst b \<and> snd a < snd b)) ys"
    and "\<forall>y \<in> set ys. snd x < snd y"
  shows "sorted_wrt (\<lambda>a b. fst a < fst b \<or> (fst a = fst b \<and> snd a < snd b))
           (insort_key fst x ys)"
  using assms
proof (induction ys)
  case Nil
  then show ?case by simp
next
  case (Cons y ys)
  show ?case
  proof (cases "fst x \<le> fst y")
    case True
    have "\<forall>z \<in> set (y # ys). fst x < fst z \<or> (fst x = fst z \<and> snd x < snd z)"
    proof
      fix z assume z: "z \<in> set (y # ys)"
      then have "fst y \<le> fst z" using Cons.prems(1) by auto
      with True have "fst x \<le> fst z" by simp
      moreover have "snd x < snd z" using Cons.prems(2) z by blast
      ultimately show "fst x < fst z \<or> (fst x = fst z \<and> snd x < snd z)" by auto
    qed
    with True Cons.prems(1) show ?thesis by simp
  next
    case False
    have "sorted_wrt (\<lambda>a b. fst a < fst b \<or> (fst a = fst b \<and> snd a < snd b))
           (insort_key fst x ys)"
      using Cons by simp
    moreover have "\<forall>z \<in> set (insort_key fst x ys).
        fst y < fst z \<or> (fst y = fst z \<and> snd y < snd z)"
      using False Cons.prems(1) by (auto simp: set_insort_key)
    ultimately show ?thesis using False by simp
  qed
qed

lemma sort_key_value_index:
  fixes ps :: "(real \<times> nat) list"
  assumes "sorted_wrt (\<lambda>a b. snd a < snd b) ps"
  shows "sorted_wrt (\<lambda>a b. fst a < fst b \<or> (fst a = fst b \<and> snd a < snd b))
           (sort_key fst ps)"
  using assms
proof (induction ps)
  case Nil
  then show ?case by simp
next
  case (Cons p ps)
  have "sort_key fst (p # ps) = insort_key fst p (sort_key fst ps)" by simp
  moreover have "sorted_wrt (\<lambda>a b. fst a < fst b \<or> (fst a = fst b \<and> snd a < snd b))
           (insort_key fst p (sort_key fst ps))"
    using Cons by (intro insort_key_value_index) auto
  ultimately show ?case by simp
qed

lemma zip_indices_sorted:
  "sorted_wrt (\<lambda>a b. snd a < snd b) (zip (a :: real list) [0 ..< length a])"
proof -
  have "sorted_wrt (<) (map snd (zip a [0 ..< length a]))" by simp
  then show ?thesis by (simp only: sorted_wrt_map)
qed

lemma stable_argsort_set: "set (stable_argsort a) = {..< length a}"
proof -
  have "set (stable_argsort a) = snd ` set (zip a [0 ..< length a])"
    by (simp add: stable_argsort_def)
  also have "\<dots> = set (map snd (zip a [0 ..< length a]))" by (simp only: set_map)
  also have "\<dots> = {..< length a}" by (simp add: lessThan_atLeast0)
  finally show ?thesis .
qed

lemma stable_argsort_distinct: "distinct (stable_argsort a)"
proof -
  let ?z = "zip a [0 ..< length a]"
  have "distinct (map snd ?z)" by simp
  then have "distinct ?z" "inj_on snd (set ?z)" by (simp_all only: distinct_map)
  then have "distinct (sort_key fst ?z)" "inj_on snd (set (sort_key fst ?z))" by simp_all
  then show ?thesis unfolding stable_argsort_def by (simp only: distinct_map)
qed

lemma stable_argsort_sorted:
  "sorted_wrt (\<lambda>i j. a ! i < a ! j \<or> (a ! i = a ! j \<and> i < j)) (stable_argsort a)"
proof -
  let ?S = "sort_key fst (zip a [0 ..< length a])"
  have S: "sorted_wrt (\<lambda>p q. fst p < fst q \<or> (fst p = fst q \<and> snd p < snd q)) ?S"
    by (rule sort_key_value_index [OF zip_indices_sorted])
  have el: "\<And>p. p \<in> set ?S \<Longrightarrow> fst p = a ! snd p"
    by (auto simp: set_zip)
  have "sorted_wrt (\<lambda>p q. a ! snd p < a ! snd q \<or> (a ! snd p = a ! snd q \<and> snd p < snd q)) ?S"
    by (rule sorted_wrt_mono_rel [OF _ S]) (use el in auto)
  then show ?thesis by (simp add: stable_argsort_def sorted_wrt_map)
qed

text \<open>The two sample sorts meet what NumPy promises.\<close>

lemma stable_argsort_is_argsort: "is_argsort a (stable_argsort a)"
proof -
  have "sorted_wrt (\<lambda>i j. a ! i \<le> a ! j) (stable_argsort a)"
    by (rule sorted_wrt_mono_rel [OF _ stable_argsort_sorted]) auto
  then have "sorted (map (\<lambda>i. a ! i) (stable_argsort a))"
    by (simp add: sorted_wrt_map)
  then show ?thesis
    by (simp add: is_argsort_def stable_argsort_distinct stable_argsort_set lessThan_atLeast0)
qed

lemma unstable_argsort_is_argsort: "is_argsort a (unstable_argsort a)"
proof (cases "a = tie_sims")
  case True
  have "{0 ..< 7 :: nat} = {0, 1, 2, 3, 4, 5, 6}" by auto
  then have "set [5, 0, 6, 3, 2, 1, 4 :: nat] = set [0 ..< 7]" by auto
  moreover have "length a = 7" using True by (simp add: tie_sims_def)
  moreover have "sorted (map (\<lambda>i. a ! i) [5, 0, 6, 3, 2, 1, 4])"
    using True by (simp add: tie_sims_def)
  ultimately show ?thesis
    using True by (simp add: unstable_argsort_def is_argsort_def)
next
  case False
  then show ?thesis by (simp add: unstable_argsort_def stable_argsort_is_argsort)
qed

text \<open>What follows from the promise.\<close>

lemma is_argsort_length: "is_argsort a p \<Longrightarrow> length p = length a"
proof -
  assume p: "is_argsort a p"
  then have d: "distinct p" and e: "set p = set [0 ..< length a]"
    by (simp_all only: is_argsort_def)
  have "length p = card (set p)" using distinct_card [OF d] by simp
  also have "\<dots> = card (set [0 ..< length a])" by (simp only: e)
  finally show ?thesis by simp
qed

lemma is_argsort_set: "is_argsort a p \<Longrightarrow> set p = {..< length a}"
  by (simp add: is_argsort_def lessThan_atLeast0)

lemma is_argsort_rev_sorted:
  "is_argsort a p \<Longrightarrow> sorted_wrt (\<lambda>i j. a ! j \<le> a ! i) (rev p)"
  by (simp add: is_argsort_def sorted_wrt_rev sorted_wrt_map)

lemma py_take_cases: "py_take k xs = take (if 0 \<le> k then nat k else length xs - nat (- k)) xs"
  by (simp add: py_take_def)

lemma sorted_wrt_take_drop:
  assumes "sorted_wrt P xs" "a \<in> set (take n xs)" "b \<in> set (drop n xs)"
  shows "P a b"
proof -
  have "sorted_wrt P (take n xs @ drop n xs)" using assms(1) by simp
  then show ?thesis using assms(2,3) unfolding sorted_wrt_append by blast
qed

text \<open>The slice of the reversed order, for an order \<open>p\<close> that NumPy may return.\<close>

lemma top_take:
  assumes "is_argsort sims p"
  shows "py_take k (rev p) = take (if 0 \<le> k then nat k else length sims - nat (- k)) (rev p)"
  by (simp add: py_take_cases is_argsort_length [OF assms])

lemma top_distinct:
  assumes "is_argsort sims p"
  shows "distinct (py_take k (rev p))"
  unfolding top_take [OF assms] using assms by (simp add: is_argsort_def)

lemma top_subset:
  assumes "is_argsort sims p"
  shows "set (py_take k (rev p)) \<subseteq> {..< length sims}"
proof -
  have "set (py_take k (rev p)) \<subseteq> set (rev p)"
    unfolding top_take [OF assms] by (rule set_take_subset)
  then show ?thesis by (simp add: is_argsort_set [OF assms])
qed

lemma top_length:
  assumes "is_argsort sims p"
  shows "length (py_take k (rev p)) =
     (if 0 \<le> k then min (nat k) (length sims) else length sims - nat (- k))"
  unfolding top_take [OF assms] by (auto simp: is_argsort_length [OF assms])

lemma top_sorted:
  assumes "is_argsort sims p"
  shows "sorted_wrt (\<lambda>i j. sims ! j \<le> sims ! i) (py_take k (rev p))"
  unfolding top_take [OF assms] by (intro sorted_wrt_take is_argsort_rev_sorted assms)

lemma top_best:
  assumes "is_argsort sims p"
    and "i < length sims" "i \<notin> set (py_take k (rev p))" "j \<in> set (py_take k (rev p))"
  shows "sims ! i \<le> sims ! j"
proof -
  let ?n = "if 0 \<le> k then nat k else length sims - nat (- k)"
  let ?L = "rev p"
  have "i \<in> set ?L" using assms(2) by (simp add: is_argsort_set [OF assms(1)])
  then have "i \<in> set (take ?n ?L) \<union> set (drop ?n ?L)"
    by (metis append_take_drop_id set_append)
  with assms(3) have i: "i \<in> set (drop ?n ?L)" unfolding top_take [OF assms(1)] by blast
  have j: "j \<in> set (take ?n ?L)" using assms(4) unfolding top_take [OF assms(1)] .
  from sorted_wrt_take_drop [OF is_argsort_rev_sorted [OF assms(1)] j i] show ?thesis by auto
qed

lemma similar_posts_Inr:
  assumes "retriever P = Some r" and "similar_posts np_argsort P t k = Inr res"
  shows "\<exists>sims. cosine_similarity (ret_vectorizer r t) (ret_matrix r) = Inr sims \<and>
           map sp_score res = map ((!) sims) (top_idx np_argsort sims k) \<and>
           map sp_post_url res =
             map (\<lambda>i. ix_post_url (ret_index r ! i)) (top_idx np_argsort sims k)"
  using assms
  by (auto simp: similar_posts_def comp_def split: sum.splits if_splits)

lemma get_similar_posts_Inr:
  assumes "get_similar_posts np_argsort r t k = Inr res"
  shows "\<exists>sims. cosine_similarity (ret_vectorizer r t) (ret_matrix r) = Inr sims \<and>
           res = map (\<lambda>i. (ret_index r ! i, sims ! i)) (top_idx np_argsort sims k)"
  using assms
  by (auto simp: get_similar_posts_def split: sum.splits if_splits)

lemma cosine_similarity_length:
  "cosine_similarity q m = Inr sims \<Longrightarrow> length sims = length m"
  by (auto simp: cosine_similarity_def split: if_splits)

lemma similar_posts_returns:
  assumes "is_argsort sims (np_argsort sims)"
    and "retriever P = Some r"
    and "cosine_similarity (ret_vectorizer r t) (ret_matrix r) = Inr sims"
    and "length (ret_matrix r) \<le> length (ret_index r)"
  shows "\<exists>res. similar_posts np_argsort P t k = Inr res"
proof -
  have "\<forall>idx \<in> set (top_idx np_argsort sims k). idx < length (ret_index r)"
    using top_subset [OF assms(1), of k] cosine_similarity_length [OF assms(3)] assms(4)
    by (auto simp: top_idx_def)
  then show ?thesis using assms(2,3) by (auto simp: similar_posts_def)
qed

text \<open>
  Claim C5, as amended.  Whatever order \<^verbatim>\<open>np.argsort\<close> leaves equal values in: for
  every similarity vector, \<^verbatim>\<open>top_idx\<close> holds distinct row numbers, as many as the slice
  \<^verbatim>\<open>[:k]\<close> keeps, ranked in descending order of similarity, and no row left out is more
  similar than a row returned.  \<^verbatim>\<open>_similar_posts\<close> and \<^verbatim>\<open>get_similar_posts\<close> return the
  rows in this order with their scores, and \<^verbatim>\<open>_similar_posts\<close> returns whenever the index
  table covers the matrix.  Nothing is promised on the order of rows of equal
  similarity.
\<close>

theorem retrieval_ranking:
  assumes "\<And>a. is_argsort a (np_argsort a)"
  shows
  "distinct (top_idx np_argsort sims k) \<and>
   set (top_idx np_argsort sims k) \<subseteq> {..< length sims} \<and>
   length (top_idx np_argsort sims k) =
     (if 0 \<le> k then min (nat k) (length sims) else length sims - nat (- k)) \<and>
   (\<forall>i j. i < j \<longrightarrow> j < length (top_idx np_argsort sims k) \<longrightarrow>
      sims ! (top_idx np_argsort sims k ! j) \<le> sims ! (top_idx np_argsort sims k ! i)) \<and>
   (\<forall>i j. i < length sims \<longrightarrow> i \<notin> set (top_idx np_argsort sims k) \<longrightarrow>
      j \<in> set (top_idx np_argsort sims k) \<longrightarrow> sims ! i \<le> sims ! j) \<and>
   (\<forall>res. retriever P = Some r \<longrightarrow> similar_posts np_argsort P t k = Inr res \<longrightarrow>
      (\<exists>s. cosine_similarity (ret_vectorizer r t) (ret_matrix r) = Inr s \<and>
           map sp_score res = map ((!) s) (top_idx np_argsort s k) \<and>
           map sp_post_url res =
             map (\<lambda>i. ix_post_url (ret_index r ! i)) (top_idx np_argsort s k))) \<and>
   (\<forall>s. retriever P = Some r \<longrightarrow>
      cosine_similarity (ret_vectorizer r t) (ret_matrix r) = Inr s \<longrightarrow>
      length (ret_matrix r) \<le> length (ret_index r) \<longrightarrow>
      (\<exists>res. similar_posts np_argsort P t k = Inr res)) \<and>
   (\<forall>res. get_similar_posts np_argsort r t k = Inr res \<longrightarrow>
      (\<exists>s. cosine_similarity (ret_vectorizer r t) (ret_matrix r) = Inr s \<and>
           res = map (\<lambda>i. (ret_index r ! i, s ! i)) (top_idx np_argsort s k)))"
proof (intro conjI allI impI)
  have v: "is_argsort sims (np_argsort sims)" by (rule assms)
  show "distinct (top_idx np_argsort sims k)"
    unfolding top_idx_def by (rule top_distinct [OF v])
  show "set (top_idx np_argsort sims k) \<subseteq> {..< length sims}"
    unfolding top_idx_def by (rule top_subset [OF v])
  show "length (top_idx np_argsort sims k) =
     (if 0 \<le> k then min (nat k) (length sims) else length sims - nat (- k))"
    unfolding top_idx_def by (rule top_length [OF v])
next
  have v: "is_argsort sims (np_argsort sims)" by (rule assms)
  fix i j assume "i < j" "j < length (top_idx np_argsort sims k)"
  then show "sims ! (top_idx np_argsort sims k ! j) \<le> sims ! (top_idx np_argsort sims k ! i)"
    using top_sorted [OF v, of k] by (simp add: top_idx_def sorted_wrt_iff_nth_less)
next
  have v: "is_argsort sims (np_argsort sims)" by (rule assms)
  fix i j
  assume "i < length sims" "i \<notin> set (top_idx np_argsort sims k)"
    "j \<in> set (top_idx np_argsort sims k)"
  then show "sims ! i \<le> sims ! j" unfolding top_idx_def by (rule top_best [OF v])
next
  fix res assume "retriever P = Some r" "similar_posts np_argsort P t k = Inr res"
  then show "\<exists>s. cosine_similarity (ret_vectorizer r t) (ret_matrix r) = Inr s \<and>
           map sp_score res = map ((!) s) (top_idx np_argsort s k) \<and>
           map sp_post_url res =
             map (\<lambda>i. ix_post_url (ret_index r ! i)) (top_idx np_argsort s k)"
    by (rule similar_posts_Inr)
next
  fix s assume "retriever P = Some r"
    "cosine_similarity (ret_vectorizer r t) (ret_matrix r) = Inr s"
    "length (ret_matrix r) \<le> length (ret_index r)"
  moreover have "is_argsort s (np_argsort s)" by (rule assms)
  ultimately show "\<exists>res. similar_posts np_argsort P t k = Inr res"
    by (intro similar_posts_returns [of s np_argsort P r t])
next
  fix res assume "get_similar_posts np_argsort r t k = Inr res"
  then show "\<exists>s. cosine_similarity (ret_vectorizer r t) (ret_matrix r) = Inr s \<and>
           res = map (\<lambda>i. (ret_index r ! i, s ! i)) (top_idx np_argsort s k)"
    by (rule get_similar_posts_Inr)
qed

lemma sqrt_25: "sqrt 25 = 5"
proof -
  have "sqrt ((5::real)\<^sup>2) = \<bar>5\<bar>" by (rule real_sqrt_abs)
  then show ?thesis by simp
qed

lemma tie_cosine:
  "cosine_similarity (ret_vectorizer tie_retriever q) (ret_matrix tie_retriever) = Inr tie_sims"
  by (simp add: cosine_similarity_def tie_retriever_def l2_normalize_def tie_sims_def sqrt_25)

lemma unstable_top_idx: "top_idx unstable_argsort tie_sims 7 = [4, 1, 2, 3, 6, 0, 5]"
  by (simp add: top_idx_def unstable_argsort_def py_take_def)

lemma stable_top_idx: "top_idx stable_argsort tie_sims 7 = [4, 2, 1, 6, 3, 0, 5]"
  by (simp add: top_idx_def stable_argsort_def tie_sims_def py_take_def upt_rec)

theorem retrieval_ranking_witness:
  "(\<forall>a. is_argsort a (unstable_argsort a)) \<and>
   retriever (sample_predictor\<lparr>retriever := Some tie_retriever\<rparr>) = Some tie_retriever \<and>
   length (ret_matrix tie_retriever) \<le> length (ret_index tie_retriever) \<and>
   length (top_idx unstable_argsort tie_sims 3) = 3 \<and>
   tie_sims ! (top_idx unstable_argsort tie_sims 3 ! 2) \<le>
     tie_sims ! (top_idx unstable_argsort tie_sims 3 ! 0) \<and>
   (\<exists>res. similar_posts unstable_argsort (sample_predictor\<lparr>retriever := Some tie_retriever\<rparr>)
            ''query'' 3 = Inr res \<and>
      map sp_score res = map ((!) tie_sims) (top_idx unstable_argsort tie_sims 3))"
proof -
  let ?P = "sample_predictor\<lparr>retriever := Some tie_retriever\<rparr>"
  have v: "\<And>a. is_argsort a (unstable_argsort a)" by (rule unstable_argsort_is_argsort)
  note thm1 = retrieval_ranking [of unstable_argsort tie_sims 3 ?P tie_retriever "''query''", OF v]
  have r: "retriever ?P = Some tie_retriever" by simp
  have l: "length (ret_matrix tie_retriever) \<le> length (ret_index tie_retriever)"
    by (simp add: tie_retriever_def)
  have len: "length (top_idx unstable_argsort tie_sims 3) = 3"
    using thm1 by (simp add: tie_sims_def)
  from thm1 have "(0::nat) < 2 \<longrightarrow> 2 < length (top_idx unstable_argsort tie_sims 3) \<longrightarrow>
      tie_sims ! (top_idx unstable_argsort tie_sims 3 ! 2) \<le>
        tie_sims ! (top_idx unstable_argsort tie_sims 3 ! 0)" by blast
  with len have ord: "tie_sims ! (top_idx unstable_argsort tie_sims 3 ! 2) \<le>
        tie_sims ! (top_idx unstable_argsort tie_sims 3 ! 0)" by simp
  from thm1 r l tie_cosine [of "''query''"]
  obtain res where res: "similar_posts unstable_argsort ?P ''query'' 3 = Inr res" by blast
  with thm1 r tie_cosine [of "''query''"]
  have sc: "map sp_score res = map ((!) tie_sims) (top_idx unstable_argsort tie_sims 3)"
    by fastforce
  from v r l len ord res sc show ?thesis by blast
qed

text \<open>
  The claim as stated fails where similarities are equal.  Rows 1, 2 and 4 of the sample
  retriever are equally similar to the query.  With the order that NumPy's vectorised
  sort leaves, the rows come back as \<open>4, 1, 2, 3, 6, 0, 5\<close>; with a stable sort, as
  \<open>4, 2, 1, 6, 3, 0, 5\<close>.  Both are descending in similarity, and in both row 4 comes
  before the rows 1 and 2 of the same similarity and smaller row number.
\<close>

theorem retrieval_tie_order_counterexample:
  "cosine_similarity (ret_vectorizer tie_retriever ''query'') (ret_matrix tie_retriever) =
     Inr tie_sims \<and>
   tie_sims ! 4 = tie_sims ! 1 \<and> tie_sims ! 4 = tie_sims ! 2 \<and>
   is_argsort tie_sims (unstable_argsort tie_sims) \<and>
   top_idx unstable_argsort tie_sims 7 = [4, 1, 2, 3, 6, 0, 5] \<and>
   map (ix_post_url \<circ> fst) (projr (get_similar_posts unstable_argsort tie_retriever ''query'' 7)) =
     map (\<lambda>n. ''https://example.com/'' @ n) [''4'', ''1'', ''2'', ''3'', ''6'', ''0'', ''5''] \<and>
   is_argsort tie_sims (stable_argsort tie_sims) \<and>
   top_idx stable_argsort tie_sims 7 = [4, 2, 1, 6, 3, 0, 5] \<and>
   map (ix_post_url \<circ> fst) (projr (get_similar_posts stable_argsort tie_retriever ''query'' 7)) =
     map (\<lambda>n. ''https://example.com/'' @ n) [''4'', ''2'', ''1'', ''6'', ''3'', ''0'', ''5'']"
proof -
  have q: "''query'' \<noteq> [] \<and> strip ''query'' \<noteq> []" by (simp add: strip_def py_isspace_def)
  have ix: "ret_index tie_retriever =
      map (\<lambda>n. \<lparr>ix_company = ''acme'', ix_post_url = ''https://example.com/'' @ n\<rparr>)
        [''0'', ''1'', ''2'', ''3'', ''4'', ''5'', ''6'']"
    by (simp add: tie_retriever_def)
  have g1: "map (ix_post_url \<circ> fst)
       (projr (get_similar_posts unstable_argsort tie_retriever ''query'' 7)) =
     map (\<lambda>n. ''https://example.com/'' @ n) [''4'', ''1'', ''2'', ''3'', ''6'', ''0'', ''5'']"
    using q by (simp add: get_similar_posts_def tie_cosine unstable_top_idx ix)
  have g2: "map (ix_post_url \<circ> fst)
       (projr (get_similar_posts stable_argsort tie_retriever ''query'' 7)) =
     map (\<lambda>n. ''https://example.com/'' @ n) [''4'', ''2'', ''1'', ''6'', ''3'', ''0'', ''5'']"
    using q by (simp add: get_similar_posts_def tie_cosine stable_top_idx ix)
  have t: "tie_sims ! 4 = tie_sims ! 1 \<and> tie_sims ! 4 = tie_sims ! 2" by (simp add: tie_sims_def)
  from g1 g2 t tie_cosine unstable_top_idx stable_top_idx
    unstable_argsort_is_argsort stable_argsort_is_argsort
  show ?thesis by simp
qed

section \<open>Proofs: URL canonicalisation\<close>

lemma colon_not_scheme_char: "\<not> scheme_char CHR '':''"
  by (simp add: scheme_char_def ascii_alpha_def)

lemma delim_not_scheme_char: "netloc_delim c \<Longrightarrow> \<not> scheme_char c"
  by (auto simp: netloc_delim_def scheme_char_def ascii_alpha_def)

lemma delim_not_alpha: "netloc_delim c \<Longrightarrow> \<not> ascii_alpha c"
  by (auto simp: netloc_delim_def ascii_alpha_def)

lemma alpha_scheme_char: "ascii_alpha c \<Longrightarrow> scheme_char c"
  by (simp add: scheme_char_def)

lemma unsafe_imp_c0: "unsafe_url_byte c \<Longrightarrow> c0_control_or_space c"
  by (auto simp: unsafe_url_byte_def c0_control_or_space_def)

lemma scheme_char_not_c0: "scheme_char c \<Longrightarrow> \<not> c0_control_or_space c"
  by (auto simp: scheme_char_def ascii_alpha_def c0_control_or_space_def Let_def)

lemma delim_not_c0: "netloc_delim c \<Longrightarrow> \<not> c0_control_or_space c"
  by (auto simp: netloc_delim_def c0_control_or_space_def)

lemma delim_not_space: "netloc_delim c \<Longrightarrow> \<not> py_isspace c"
  by (auto simp: netloc_delim_def py_isspace_def)

lemma char_eq_code: "c = d \<longleftrightarrow> (of_char c :: nat) = of_char d"
  by simp

lemma py_lower_code:
  "(of_char (py_lower c) :: nat) = (let n = of_char c :: nat
      in if (65 \<le> n \<and> n \<le> 90) \<or> (192 \<le> n \<and> n \<le> 214) \<or> (216 \<le> n \<and> n \<le> 222)
         then n + 32 else n)"
  by (simp add: py_lower_def Let_def)

lemma py_lower_idem: "py_lower (py_lower c) = py_lower c"
  unfolding char_eq_code [of "py_lower (py_lower c)"]
  by (simp add: py_lower_code [of "py_lower c"] Let_def) (auto simp: py_lower_code Let_def)

lemma py_lower_delim: "netloc_delim (py_lower c) \<longleftrightarrow> netloc_delim c"
  unfolding netloc_delim_def char_eq_code [of _ "CHR ''/''"] char_eq_code [of _ "CHR ''?''"]
    char_eq_code [of _ "CHR ''#''"]
  by (auto simp: py_lower_code Let_def)

lemma py_lower_lbracket: "py_lower c = CHR ''['' \<longleftrightarrow> c = CHR ''[''"
  unfolding char_eq_code [of _ "CHR ''[''"] by (auto simp: py_lower_code Let_def)

lemma py_lower_rbracket: "py_lower c = CHR '']'' \<longleftrightarrow> c = CHR '']''"
  unfolding char_eq_code [of _ "CHR '']''"] by (auto simp: py_lower_code Let_def)

lemma py_lower_unsafe: "unsafe_url_byte (py_lower c) \<longleftrightarrow> unsafe_url_byte c"
  by (auto simp: unsafe_url_byte_def py_lower_code Let_def)

lemma py_lower_alpha: "ascii_alpha c \<Longrightarrow> ascii_alpha (py_lower c)"
  by (auto simp: ascii_alpha_def py_lower_code Let_def)

lemma py_lower_scheme_char: "scheme_char c \<Longrightarrow> scheme_char (py_lower c)"
  by (auto simp: scheme_char_def ascii_alpha_def py_lower_code Let_def)

lemma lower_idem: "lower (lower s) = lower s"
  by (simp add: lower_def py_lower_idem)

lemma path_of_takeWhile:
  "path_of url = takeWhile (\<lambda>c. c \<noteq> CHR ''#'' \<and> c \<noteq> CHR ''?'') url"
proof -
  have f: "\<And>c x. fst (split_at c x) = takeWhile (\<lambda>y. y \<noteq> c) x"
  proof -
    fix c :: char and x
    show "fst (split_at c x) = takeWhile (\<lambda>y. y \<noteq> c) x"
    proof (cases "c \<in> set x")
      case True
      then show ?thesis by (simp add: split_at_def)
    next
      case False
      then have tw: "takeWhile (\<lambda>y. y \<noteq> c) x = x" by (auto simp: takeWhile_eq_all_conv)
      show ?thesis by (simp add: split_at_def False tw)
    qed
  qed
  show ?thesis by (simp add: path_of_def f takeWhile_takeWhile)
qed

lemma urlsplit_parts:
  "urlsplit lib t =
     (case parse_url lib t of
        (s, n, u) \<Rightarrow>
          (case check_netloc lib n of
             Some e \<Rightarrow> Inl e
           | None \<Rightarrow> Inr \<lparr>url_scheme = s, url_netloc = n, url_path = path_of u,
                           url_query = snd (split_at CHR ''?'' (fst (split_at CHR ''#'' u))),
                           url_fragment = snd (split_at CHR ''#'' u)\<rparr>))"
  by (simp add: urlsplit_def parse_url_def clean_url_def path_of_def Let_def case_prod_unfold
      split: option.splits)

lemma canonicalize_url_Str:
  "canonicalize_url lib (Str u) =
     (if strip u = [] then Inr [] else canonical_of lib (strip u))"
  by (simp add: Let_def urlsplit_parts canonical_of_def split: prod.splits option.splits)

subsection \<open>Dropping from the right\<close>

lemma rev_dropWhile_rev_decomp:
  "s = rev (dropWhile P (rev s)) @ rev (takeWhile P (rev s))"
proof -
  have "rev (takeWhile P (rev s) @ dropWhile P (rev s)) = rev (rev s)"
    by (simp only: takeWhile_dropWhile_id)
  then show ?thesis by (simp only: rev_append rev_rev_ident)
qed

lemma rev_dropWhile_rev_last:
  "rev (dropWhile P (rev s)) \<noteq> [] \<Longrightarrow> \<not> P (last (rev (dropWhile P (rev s))))"
  using hd_dropWhile [of P "rev s"] by (simp add: last_rev)

lemma rev_dropWhile_rev_fixed:
  "s = [] \<or> \<not> P (last s) \<Longrightarrow> rev (dropWhile P (rev s)) = s"
proof (cases "s = []")
  case True
  then show ?thesis by simp
next
  case False
  assume "s = [] \<or> \<not> P (last s)"
  with False have "\<not> P (hd (rev s))" by (simp add: hd_rev)
  then have "dropWhile P (rev s) = rev s" by (simp add: dropWhile_eq_self_iff)
  then show ?thesis by simp
qed

lemma rev_dropWhile_rev_append:
  "\<forall>c \<in> set z. P c \<Longrightarrow> rev (dropWhile P (rev (s @ z))) = rev (dropWhile P (rev s))"
  by (simp add: dropWhile_append)

lemma rstrip_slash_decomp: "\<exists>k. p = rstrip_slash p @ replicate k CHR ''/''"
proof -
  let ?t = "rev (takeWhile (\<lambda>c. c = CHR ''/'') (rev p))"
  have "\<forall>c \<in> set ?t. c = CHR ''/''" by (auto dest: set_takeWhileD)
  then have "?t = replicate (length ?t) CHR ''/''"
    by (metis (full_types) replicate_eqI)
  moreover have "p = rstrip_slash p @ ?t"
    unfolding rstrip_slash_def by (rule rev_dropWhile_rev_decomp)
  ultimately show ?thesis by metis
qed

lemma rstrip_slash_last: "rstrip_slash p \<noteq> [] \<Longrightarrow> last (rstrip_slash p) \<noteq> CHR ''/''"
  unfolding rstrip_slash_def using rev_dropWhile_rev_last [of "\<lambda>c. c = CHR ''/''" p] by simp

lemma rstrip_slash_fixed: "p = [] \<or> last p \<noteq> CHR ''/'' \<Longrightarrow> rstrip_slash p = p"
  unfolding rstrip_slash_def by (rule rev_dropWhile_rev_fixed) simp

lemma rstrip_slash_idem: "rstrip_slash (rstrip_slash p) = rstrip_slash p"
  using rstrip_slash_last [of p] by (intro rstrip_slash_fixed) auto

lemma rstrip_slash_append_slash: "rstrip_slash (p @ ''/'') = rstrip_slash p"
  unfolding rstrip_slash_def by (rule rev_dropWhile_rev_append) simp

lemma rstrip_slash_set: "set (rstrip_slash p) \<subseteq> set p"
  using rstrip_slash_decomp [of p] by (metis set_append Un_upper1)

lemma rstrip_slash_hd: "rstrip_slash p \<noteq> [] \<Longrightarrow> hd (rstrip_slash p) = hd p"
  using rstrip_slash_decomp [of p] by (metis hd_append2)

lemma rstrip_slash_Nil [simp]: "rstrip_slash [] = []"
  by (simp add: rstrip_slash_def)

subsection \<open>Schemes\<close>

lemma has_scheme_Nil [simp]: "\<not> has_scheme []"
  by (simp add: has_scheme_def)

lemma has_scheme_hd: "has_scheme x \<Longrightarrow> ascii_alpha (hd x)"
  by (simp add: has_scheme_def Let_def)

lemma has_scheme_append:
  assumes "has_scheme y"
  shows "has_scheme (y @ z)"
proof -
  from assms have c: "CHR '':'' \<in> set y" and y: "y \<noteq> []"
    by (auto simp: has_scheme_def Let_def)
  have "takeWhile (\<lambda>c. c \<noteq> CHR '':'') (y @ z) = takeWhile (\<lambda>c. c \<noteq> CHR '':'') y"
    using c by (simp add: takeWhile_append1)
  moreover have "hd (y @ z) = hd y" using y by simp
  ultimately show ?thesis using assms c by (simp add: has_scheme_def Let_def)
qed

lemma has_scheme_intro:
  assumes "s \<noteq> []" "ascii_alpha (hd s)" "list_all scheme_char s"
  shows "has_scheme (s @ CHR '':'' # r)"
    and "takeWhile (\<lambda>c. c \<noteq> CHR '':'') (s @ CHR '':'' # r) = s"
    and "dropWhile (\<lambda>c. c \<noteq> CHR '':'') (s @ CHR '':'' # r) = CHR '':'' # r"
proof -
  have nc: "\<forall>c \<in> set s. c \<noteq> CHR '':''"
    using assms(3) colon_not_scheme_char by (auto simp: list_all_iff)
  then show tw: "takeWhile (\<lambda>c. c \<noteq> CHR '':'') (s @ CHR '':'' # r) = s"
    by (simp add: takeWhile_tail)
  show "dropWhile (\<lambda>c. c \<noteq> CHR '':'') (s @ CHR '':'' # r) = CHR '':'' # r"
    using nc by (simp add: dropWhile_append)
  show "has_scheme (s @ CHR '':'' # r)"
    unfolding has_scheme_def Let_def tw using assms by simp
qed

lemma split_scheme_no: "\<not> has_scheme x \<Longrightarrow> split_scheme x = ([], x)"
  by (simp add: split_scheme_def)

lemma lower_scheme_valid:
  assumes "has_scheme x"
  defines "s \<equiv> lower (takeWhile (\<lambda>c. c \<noteq> CHR '':'') x)"
  shows "s \<noteq> []" "ascii_alpha (hd s)" "list_all scheme_char s" "lower s = s"
proof -
  let ?pre = "takeWhile (\<lambda>c. c \<noteq> CHR '':'') x"
  from assms(1) have pre: "?pre \<noteq> []" "ascii_alpha (hd x)" "list_all scheme_char ?pre"
    by (auto simp: has_scheme_def Let_def)
  show "s \<noteq> []" using pre(1) by (simp add: s_def lower_def)
  have "hd ?pre = hd x" using pre(1) by (metis hd_append2 takeWhile_dropWhile_id)
  then show "ascii_alpha (hd s)"
    using pre by (simp add: s_def lower_def hd_map py_lower_alpha)
  show "list_all scheme_char s"
    using pre(3) by (auto simp: s_def lower_def list_all_iff py_lower_scheme_char)
  show "lower s = s" by (simp add: s_def lower_idem)
qed

subsection \<open>Cleaning\<close>

lemma clean_url_no_unsafe: "c \<in> set (clean_url lib t) \<Longrightarrow> \<not> unsafe_url_byte c"
  by (simp add: clean_url_def)

lemma clean_url_hd:
  assumes l: "lstrip_c0 lib" and "clean_url lib t \<noteq> []"
  shows "\<not> c0_control_or_space (hd (clean_url lib t))"
proof -
  let ?u = "dropWhile c0_control_or_space t"
  from assms have "filter (\<lambda>c. \<not> unsafe_url_byte c) ?u \<noteq> []" by (simp add: clean_url_def)
  then have u: "?u \<noteq> []" by (metis filter.simps(1))
  then have h: "\<not> c0_control_or_space (hd ?u)" by (rule hd_dropWhile)
  then have "\<not> unsafe_url_byte (hd ?u)" using unsafe_imp_c0 by blast
  then have "clean_url lib t = hd ?u # filter (\<lambda>c. \<not> unsafe_url_byte c) (tl ?u)"
    using u l unfolding clean_url_def by (cases ?u) auto
  with h show ?thesis by simp
qed

lemma clean_url_fixed:
  assumes "lstrip_c0 lib \<longrightarrow> v = [] \<or> \<not> c0_control_or_space (hd v)"
    and "\<forall>c \<in> set v. \<not> unsafe_url_byte c"
  shows "clean_url lib v = v"
proof -
  have "lstrip_c0 lib \<longrightarrow> dropWhile c0_control_or_space v = v"
    using assms(1) by (simp add: dropWhile_eq_self_iff)
  then show ?thesis using assms(2) by (simp add: clean_url_def)
qed

subsection \<open>Network location and path\<close>

lemma splitnetloc_build:
  assumes "\<forall>c \<in> set n. \<not> netloc_delim c" and "q = [] \<or> netloc_delim (hd q)"
  shows "splitnetloc (''//'' @ n @ q) = (n, q)"
proof (cases q)
  case Nil
  with assms(1) show ?thesis by (simp add: splitnetloc_def)
next
  case (Cons c cs)
  with assms(2) have "netloc_delim c" by simp
  with assms(1) Cons show ?thesis
    by (simp add: splitnetloc_def takeWhile_tail dropWhile_append)
qed

lemma splitnetloc_fst: "c \<in> set (fst (splitnetloc x)) \<Longrightarrow> \<not> netloc_delim c"
  by (auto simp: splitnetloc_def dest: set_takeWhileD)

lemma splitnetloc_snd:
  "snd (splitnetloc x) = [] \<or> netloc_delim (hd (snd (splitnetloc x)))"
  using hd_dropWhile [of "\<lambda>c. \<not> netloc_delim c" "drop 2 x"] by (auto simp: splitnetloc_def)

lemma splitnetloc_set:
  "set (fst (splitnetloc x)) \<subseteq> set x" "set (snd (splitnetloc x)) \<subseteq> set x"
  by (auto simp: splitnetloc_def dest: set_takeWhileD set_dropWhileD in_set_dropD)

lemma path_of_fixed:
  "CHR ''?'' \<notin> set q \<Longrightarrow> CHR ''#'' \<notin> set q \<Longrightarrow> path_of q = q"
  by (auto simp: path_of_takeWhile takeWhile_eq_all_conv)

lemma path_of_set: "c \<in> set (path_of x) \<Longrightarrow> c \<in> set x \<and> c \<noteq> CHR ''?'' \<and> c \<noteq> CHR ''#''"
  by (auto simp: path_of_takeWhile dest: set_takeWhileD)

lemma path_of_decomp: "\<exists>r. x = path_of x @ r"
  by (metis path_of_takeWhile takeWhile_dropWhile_id)

lemma path_of_hd: "path_of x \<noteq> [] \<Longrightarrow> hd (path_of x) = hd x"
  using path_of_decomp [of x] by (metis hd_append2)

lemma path_of_delim_hd:
  "x = [] \<or> netloc_delim (hd x) \<Longrightarrow> path_of x = [] \<or> hd (path_of x) = CHR ''/''"
proof (cases "path_of x = []")
  case True
  then show ?thesis by simp
next
  case False
  assume a: "x = [] \<or> netloc_delim (hd x)"
  have h: "hd (path_of x) = hd x" by (rule path_of_hd [OF False])
  have "hd (path_of x) \<in> set (path_of x)" using False by simp
  then have n: "hd x \<noteq> CHR ''?''" "hd x \<noteq> CHR ''#''" using path_of_set h by auto
  have "x \<noteq> []" using False by (auto simp: path_of_takeWhile)
  with a n h show ?thesis by (auto simp: netloc_delim_def)
qed

subsection \<open>Checks on the network location\<close>

lemma check_netloc_Nil [simp]: "check_netloc lib [] = None"
  by (simp add: check_netloc_def)

lemma bracketed_host_lower: "bracketed_host (lower n) = lower (bracketed_host n)"
proof -
  have 1: "(\<lambda>c. c \<noteq> CHR '']'') \<circ> py_lower = (\<lambda>c. c \<noteq> CHR '']'')"
    by (auto simp: fun_eq_iff py_lower_rbracket)
  have 2: "(\<lambda>c. c \<noteq> CHR ''['') \<circ> py_lower = (\<lambda>c. c \<noteq> CHR ''['')"
    by (auto simp: fun_eq_iff py_lower_lbracket)
  have "bracketed_host (lower n) =
      takeWhile (\<lambda>c. c \<noteq> CHR '']'') (tl (map py_lower (dropWhile (\<lambda>c. c \<noteq> CHR ''['') n)))"
    by (simp add: bracketed_host_def lower_def dropWhile_map 2)
  also have "\<dots> = takeWhile (\<lambda>c. c \<noteq> CHR '']'') (map py_lower (tl (dropWhile (\<lambda>c. c \<noteq> CHR ''['') n)))"
    by (simp only: map_tl)
  also have "\<dots> = lower (bracketed_host n)"
    by (simp add: bracketed_host_def lower_def takeWhile_map 1)
  finally show ?thesis .
qed

lemma lower_brackets:
  "CHR ''['' \<in> set (lower n) \<longleftrightarrow> CHR ''['' \<in> set n"
  "CHR '']'' \<in> set (lower n) \<longleftrightarrow> CHR '']'' \<in> set n"
  by (auto simp: lower_def image_iff) (metis py_lower_lbracket py_lower_rbracket)+

lemma check_netloc_lower:
  assumes "check_netloc lib n = None" and "\<And>n. netloc_ok lib n \<Longrightarrow> netloc_ok lib (lower n)"
  shows "check_netloc lib (lower n) = None"
  using assms
  by (auto simp: check_netloc_def lower_brackets split: if_splits)

lemma check_bracketed_host_lower:
  assumes "\<And>h. host_ok h \<Longrightarrow> host_ok (lower h)" and "check_bracketed_host host_ok n"
  shows "check_bracketed_host host_ok (lower n)"
  using assms by (simp add: check_bracketed_host_def bracketed_host_lower)

lemma urlunsplit_simple:
  assumes "patched_urlunsplit lib \<or> n \<noteq> [] \<or> take 2 p \<noteq> ''//''"
  shows "urlunsplit lib s n p [] [] =
     (if s \<noteq> [] then s @ '':'' else []) @
     (if n \<noteq> [] \<or> (s \<noteq> [] \<and> s \<in> set (uses_netloc lib)) \<or> take 2 p = ''//''
      then ''//'' @ n @ (if p \<noteq> [] \<and> hd p \<noteq> CHR ''/'' then CHR ''/'' # p else p)
      else p)"
proof -
  have "p \<noteq> [] \<Longrightarrow> (take 1 p \<noteq> ''/'') = (hd p \<noteq> CHR ''/'')" by (cases p) auto
  then show ?thesis using assms by (auto simp: urlunsplit_def Let_def)
qed

lemma split_scheme_built:
  assumes "s = [] \<or> (ascii_alpha (hd s) \<and> list_all scheme_char s \<and> lower s = s)"
    and "s = [] \<longrightarrow> \<not> has_scheme r"
  shows "split_scheme ((if s \<noteq> [] then s @ '':'' else []) @ r) = (s, r)"
proof (cases "s = []")
  case True
  with assms(2) show ?thesis by (simp add: split_scheme_no)
next
  case False
  with assms(1) have v: "ascii_alpha (hd s)" "list_all scheme_char s" "lower s = s" by auto
  from has_scheme_intro [OF False v(1,2), of r] v(3) False show ?thesis
    by (simp add: split_scheme_def)
qed

lemma hd_built:
  "hd ((if s \<noteq> [] then s @ '':'' else []) @ r) = (if s \<noteq> [] then hd s else hd r)"
  by simp

lemma parse_url_built_netloc:
  assumes s: "s = [] \<or> (ascii_alpha (hd s) \<and> list_all scheme_char s \<and> lower s = s)"
    and n: "\<forall>c \<in> set n. \<not> netloc_delim c"
    and q: "q = [] \<or> hd q = CHR ''/''"
    and cl: "\<forall>c \<in> set s \<union> set n \<union> set q. \<not> unsafe_url_byte c"
  shows "parse_url lib ((if s \<noteq> [] then s @ '':'' else []) @ ''//'' @ n @ q) = (s, n, q)"
proof -
  let ?r = "''//'' @ n @ q"
  let ?v = "(if s \<noteq> [] then s @ '':'' else []) @ ?r"
  have hd_ok: "\<not> c0_control_or_space (hd ?v)"
  proof (cases "s = []")
    case True
    then show ?thesis by (simp add: c0_control_or_space_def)
  next
    case False
    with s have "scheme_char (hd s)" by (auto intro: alpha_scheme_char)
    with False show ?thesis by (simp add: scheme_char_not_c0)
  qed
  have "\<forall>c \<in> set ?v. \<not> unsafe_url_byte c"
    using cl by (auto simp: unsafe_url_byte_def)
  with hd_ok have clean: "clean_url lib ?v = ?v" by (intro clean_url_fixed) auto
  have "\<not> has_scheme ?r" using has_scheme_hd [of ?r] by (auto simp: ascii_alpha_def)
  then have sp: "split_scheme ?v = (s, ?r)" using split_scheme_built [OF s, of ?r] by simp
  have "q = [] \<or> netloc_delim (hd q)" using q by (auto simp: netloc_delim_def)
  then have nl: "splitnetloc ?r = (n, q)" using n by (intro splitnetloc_build) auto
  have t2: "take 2 ?r = ''//''" by simp
  show ?thesis unfolding parse_url_def clean sp Let_def prod.case t2 nl by simp
qed

lemma parse_url_built_plain:
  assumes s: "s = [] \<or> (ascii_alpha (hd s) \<and> list_all scheme_char s \<and> lower s = s)"
    and p: "take 2 p \<noteq> ''//''"
    and ns: "s = [] \<longrightarrow>
               \<not> has_scheme p \<and> (lstrip_c0 lib \<longrightarrow> p = [] \<or> \<not> c0_control_or_space (hd p))"
    and cl: "\<forall>c \<in> set s \<union> set p. \<not> unsafe_url_byte c"
  shows "parse_url lib ((if s \<noteq> [] then s @ '':'' else []) @ p) = (s, [], p)"
proof -
  let ?v = "(if s \<noteq> [] then s @ '':'' else []) @ p"
  have hd_ok: "lstrip_c0 lib \<longrightarrow> ?v = [] \<or> \<not> c0_control_or_space (hd ?v)"
  proof (cases "s = []")
    case True
    with ns show ?thesis by auto
  next
    case False
    with s have "scheme_char (hd s)" by (auto intro: alpha_scheme_char)
    with False show ?thesis by (simp add: scheme_char_not_c0)
  qed
  have "\<forall>c \<in> set ?v. \<not> unsafe_url_byte c"
    using cl by (auto simp: unsafe_url_byte_def)
  with hd_ok have clean: "clean_url lib ?v = ?v" by (intro clean_url_fixed) auto
  have sp: "split_scheme ?v = (s, p)" using split_scheme_built [OF s, of p] ns by simp
  show ?thesis unfolding parse_url_def clean sp Let_def prod.case using p by simp
qed

lemma canonical_roundtrip:
  assumes s: "s = [] \<or> (ascii_alpha (hd s) \<and> list_all scheme_char s \<and> lower s = s)"
    and n: "\<forall>c \<in> set n. \<not> netloc_delim c" "lower n = n" "check_netloc lib n = None"
    and p: "CHR ''?'' \<notin> set p" "CHR ''#'' \<notin> set p" "p = [] \<or> last p \<noteq> CHR ''/''"
    and ns: "s = [] \<and> n = [] \<and> take 2 p \<noteq> ''//'' \<longrightarrow>
               \<not> has_scheme p \<and> (lstrip_c0 lib \<longrightarrow> p = [] \<or> \<not> c0_control_or_space (hd p))"
    and cl: "\<forall>c \<in> set s \<union> set n \<union> set p. \<not> unsafe_url_byte c"
    and h: "patched_urlunsplit lib \<or> n \<noteq> [] \<or> take 2 p \<noteq> ''//''"
  shows "canonical_of lib (urlunsplit lib s n p [] []) = Inr (urlunsplit lib s n p [] [])"
proof (cases "n \<noteq> [] \<or> (s \<noteq> [] \<and> s \<in> set (uses_netloc lib)) \<or> take 2 p = ''//''")
  case True
  define q where "q = (if p \<noteq> [] \<and> hd p \<noteq> CHR ''/'' then CHR ''/'' # p else p)"
  have v: "urlunsplit lib s n p [] [] = (if s \<noteq> [] then s @ '':'' else []) @ ''//'' @ n @ q"
    using True unfolding urlunsplit_simple [OF h] q_def by simp
  have q1: "q = [] \<or> hd q = CHR ''/''" by (auto simp: q_def)
  have q2: "CHR ''?'' \<notin> set q" "CHR ''#'' \<notin> set q" using p(1,2) by (auto simp: q_def)
  have q3: "q = [] \<or> last q \<noteq> CHR ''/''" using p(3) by (auto simp: q_def)
  have qcl: "\<forall>c \<in> set s \<union> set n \<union> set q. \<not> unsafe_url_byte c"
    using cl by (auto simp: q_def unsafe_url_byte_def)
  have parse: "parse_url lib (urlunsplit lib s n p [] []) = (s, n, q)"
    unfolding v by (rule parse_url_built_netloc [OF s n(1) q1 qcl])
  have path: "rstrip_slash (path_of q) = q"
    using q2 q3 by (simp add: path_of_fixed rstrip_slash_fixed)
  have again: "urlunsplit lib s n q [] [] = urlunsplit lib s n p [] []"
  proof (cases "p \<noteq> [] \<and> hd p \<noteq> CHR ''/''")
    case False
    then show ?thesis by (auto simp: q_def)
  next
    case pc: True
    then have "take 2 p \<noteq> ''//''" by (cases p) auto
    with True have c: "n \<noteq> [] \<or> (s \<noteq> [] \<and> s \<in> set (uses_netloc lib))" by simp
    have q: "q = CHR ''/'' # p" using pc by (simp add: q_def)
    have "take 2 q \<noteq> ''//''" using pc unfolding q by (cases p) auto
    then have hq: "patched_urlunsplit lib \<or> n \<noteq> [] \<or> take 2 q \<noteq> ''//''" by simp
    show ?thesis using c pc q unfolding urlunsplit_simple [OF h] urlunsplit_simple [OF hq] by auto
  qed
  show ?thesis
    unfolding canonical_of_def parse by (simp add: n(2,3) path again)
next
  case False
  then have n0: "n = []" and tp: "take 2 p \<noteq> ''//''" by auto
  have v: "urlunsplit lib s n p [] [] = (if s \<noteq> [] then s @ '':'' else []) @ p"
    using False unfolding urlunsplit_simple [OF h] by simp
  have ns': "s = [] \<longrightarrow>
               \<not> has_scheme p \<and> (lstrip_c0 lib \<longrightarrow> p = [] \<or> \<not> c0_control_or_space (hd p))"
    using ns n0 tp by simp
  have pcl: "\<forall>c \<in> set s \<union> set p. \<not> unsafe_url_byte c" using cl by auto
  have parse: "parse_url lib (urlunsplit lib s n p [] []) = (s, [], p)"
    unfolding v by (rule parse_url_built_plain [OF s tp ns' pcl])
  have path: "rstrip_slash (path_of p) = p"
    using p by (simp add: path_of_fixed rstrip_slash_fixed)
  show ?thesis
    unfolding canonical_of_def parse by (simp add: path n0 lower_def)
qed

lemma canonical_of_Nil: "canonical_of lib [] = Inr []"
  by (simp add: canonical_of_def parse_url_def clean_url_def split_scheme_def urlunsplit_simple
      lower_def path_of_takeWhile rstrip_slash_Nil has_scheme_Nil check_netloc_Nil)

lemma canonicalize_url_canonical_of:
  "canonicalize_url lib (Str u) = canonical_of lib (strip u)"
  by (simp only: canonicalize_url_Str canonical_of_Nil if_cancel split: if_splits) (simp add: canonical_of_Nil)

lemma split_scheme_facts:
  assumes "split_scheme x = (s, r)"
  shows "s = [] \<or> (ascii_alpha (hd s) \<and> list_all scheme_char s \<and> lower s = s)"
    and "s = [] \<longrightarrow> \<not> has_scheme x \<and> r = x"
    and "set r \<subseteq> set x"
    and "\<forall>c \<in> set x. \<not> unsafe_url_byte c \<Longrightarrow> \<forall>c \<in> set s. \<not> unsafe_url_byte c"
proof -
  show "s = [] \<or> (ascii_alpha (hd s) \<and> list_all scheme_char s \<and> lower s = s)"
    using assms lower_scheme_valid [of x]
    by (auto simp: split_scheme_def split: if_splits)
  show "s = [] \<longrightarrow> \<not> has_scheme x \<and> r = x"
    using assms lower_scheme_valid(1) [of x]
    by (auto simp: split_scheme_def split: if_splits)
  have "set (tl (dropWhile (\<lambda>c. c \<noteq> CHR '':'') x)) \<subseteq> set x"
    by (metis list.set_sel(2) set_dropWhileD subsetI tl_Nil)
  then show "set r \<subseteq> set x"
    using assms by (auto simp: split_scheme_def split: if_splits)
  show "\<forall>c \<in> set x. \<not> unsafe_url_byte c \<Longrightarrow> \<forall>c \<in> set s. \<not> unsafe_url_byte c"
    using assms
    by (auto simp: split_scheme_def lower_def py_lower_unsafe split: if_splits
        dest!: set_takeWhileD)
qed

lemma parse_url_facts:
  assumes "parse_url lib t = (s, n, u)"
  shows "s = [] \<or> (ascii_alpha (hd s) \<and> list_all scheme_char s \<and> lower s = s)"
    and "\<forall>c \<in> set n. \<not> netloc_delim c"
    and "\<forall>c \<in> set s \<union> set n \<union> set u. \<not> unsafe_url_byte c"
    and "s = [] \<and> n = [] \<longrightarrow>
           (u = [] \<or> netloc_delim (hd u)) \<or>
           (\<not> has_scheme u \<and> (lstrip_c0 lib \<longrightarrow> u = [] \<or> \<not> c0_control_or_space (hd u)))"
proof -
  obtain s' r where sp: "split_scheme (clean_url lib t) = (s', r)" by (cases "split_scheme (clean_url lib t)")
  have s': "s' = s" and nu: "(n, u) = (if take 2 r = ''//'' then splitnetloc r else ([], r))"
    using assms by (simp_all add: parse_url_def sp)
  note f = split_scheme_facts [OF sp]
  show "s = [] \<or> (ascii_alpha (hd s) \<and> list_all scheme_char s \<and> lower s = s)"
    using f(1) s' by simp
  show "\<forall>c \<in> set n. \<not> netloc_delim c"
    using nu splitnetloc_fst [of _ r] by (auto split: if_splits simp: prod_eq_iff)
  have cl: "\<forall>c \<in> set (clean_url lib t). \<not> unsafe_url_byte c" using clean_url_no_unsafe by blast
  have sub: "set n \<subseteq> set r" "set u \<subseteq> set r"
    using nu splitnetloc_set [of r] by (auto split: if_splits simp: prod_eq_iff)
  show "\<forall>c \<in> set s \<union> set n \<union> set u. \<not> unsafe_url_byte c"
    using f(4) [OF cl] f(3) sub cl s' by blast
  show "s = [] \<and> n = [] \<longrightarrow>
           (u = [] \<or> netloc_delim (hd u)) \<or>
           (\<not> has_scheme u \<and> (lstrip_c0 lib \<longrightarrow> u = [] \<or> \<not> c0_control_or_space (hd u)))"
  proof
    assume a: "s = [] \<and> n = []"
    then have r: "\<not> has_scheme (clean_url lib t)" "r = clean_url lib t" using f(2) s' by auto
    show "(u = [] \<or> netloc_delim (hd u)) \<or>
           (\<not> has_scheme u \<and> (lstrip_c0 lib \<longrightarrow> u = [] \<or> \<not> c0_control_or_space (hd u)))"
    proof (cases "take 2 r = ''//''")
      case True
      then have "u = snd (splitnetloc r)" using nu by (simp add: prod_eq_iff)
      then show ?thesis using splitnetloc_snd [of r] by simp
    next
      case False
      then have "u = clean_url lib t" using nu r by simp
      then show ?thesis using r(1) clean_url_hd [of lib t] by auto
    qed
  qed
qed

lemma canonical_path_facts:
  assumes "(u = [] \<or> netloc_delim (hd u)) \<or>
           (\<not> has_scheme u \<and> (L \<longrightarrow> u = [] \<or> \<not> c0_control_or_space (hd u)))"
  defines "p \<equiv> rstrip_slash (path_of u)"
  shows "\<not> has_scheme p \<and> (L \<longrightarrow> p = [] \<or> \<not> c0_control_or_space (hd p))"
proof (cases "p = []")
  case True
  then show ?thesis by simp
next
  case False
  then have po: "path_of u \<noteq> []" by (auto simp: p_def)
  have hp: "hd p = hd u"
    using rstrip_slash_hd [of "path_of u"] path_of_hd [OF po] False by (simp add: p_def)
  have une: "u \<noteq> []" using po by (auto simp: path_of_takeWhile)
  obtain k where k: "path_of u = p @ replicate k CHR ''/''"
    using rstrip_slash_decomp [of "path_of u"] by (auto simp: p_def)
  obtain r where r: "u = path_of u @ r" using path_of_decomp by blast
  have u: "u = p @ (replicate k CHR ''/'' @ r)" using k r by (metis append_assoc)
  from assms(1) show ?thesis
  proof
    assume "u = [] \<or> netloc_delim (hd u)"
    with une have d: "netloc_delim (hd p)" using hp by simp
    then have "\<not> has_scheme p" using has_scheme_hd delim_not_alpha by blast
    with d show ?thesis using delim_not_c0 by blast
  next
    assume a: "\<not> has_scheme u \<and> (L \<longrightarrow> u = [] \<or> \<not> c0_control_or_space (hd u))"
    have "\<not> has_scheme p"
    proof
      assume "has_scheme p"
      then have "has_scheme (p @ (replicate k CHR ''/'' @ r))" by (rule has_scheme_append)
      with u a show False by simp
    qed
    with a une hp show ?thesis by simp
  qed
qed

lemma canonical_of_idempotent:
  assumes ok: "\<And>n. netloc_ok lib n \<Longrightarrow> netloc_ok lib (lower n)"
    and c: "canonical_of lib t = Inr v"
    and parse: "parse_url lib t = (s, n, u)"
    and h: "patched_urlunsplit lib \<or> n \<noteq> [] \<or> take 2 (rstrip_slash (path_of u)) \<noteq> ''//''"
  shows "canonical_of lib v = Inr v"
proof -
  define p where "p = rstrip_slash (path_of u)"
  from c parse have chk: "check_netloc lib n = None"
    and v: "v = urlunsplit lib s (lower n) p [] []"
    by (auto simp: canonical_of_def p_def split: option.splits)
  note f = parse_url_facts [OF parse]
  have n1: "\<forall>c \<in> set (lower n). \<not> netloc_delim c"
    using f(2) by (auto simp: lower_def py_lower_delim)
  have n2: "lower (lower n) = lower n" by (rule lower_idem)
  have n3: "check_netloc lib (lower n) = None" by (rule check_netloc_lower [OF chk ok])
  have p1: "CHR ''?'' \<notin> set p" "CHR ''#'' \<notin> set p"
    using rstrip_slash_set [of "path_of u"] path_of_set [of _ u] by (auto simp: p_def)
  have p2: "p = [] \<or> last p \<noteq> CHR ''/''"
    using rstrip_slash_last [of "path_of u"] by (auto simp: p_def)
  have ns: "s = [] \<and> lower n = [] \<and> take 2 p \<noteq> ''//'' \<longrightarrow>
               \<not> has_scheme p \<and> (lstrip_c0 lib \<longrightarrow> p = [] \<or> \<not> c0_control_or_space (hd p))"
  proof
    assume "s = [] \<and> lower n = [] \<and> take 2 p \<noteq> ''//''"
    then have "s = [] \<and> n = []" by (simp add: lower_def)
    with f(4) show
      "\<not> has_scheme p \<and> (lstrip_c0 lib \<longrightarrow> p = [] \<or> \<not> c0_control_or_space (hd p))"
      unfolding p_def by (intro canonical_path_facts) simp
  qed
  have h': "patched_urlunsplit lib \<or> lower n \<noteq> [] \<or> take 2 p \<noteq> ''//''"
    using h by (simp add: p_def lower_def)
  have "set p \<subseteq> set u"
    using rstrip_slash_set [of "path_of u"] path_of_set [of _ u] by (auto simp: p_def)
  then have cl: "\<forall>c \<in> set s \<union> set (lower n) \<union> set p. \<not> unsafe_url_byte c"
    using f(3) by (auto simp: lower_def py_lower_unsafe)
  show ?thesis
    unfolding v by (rule canonical_roundtrip [OF f(1) n1 n2 n3 p1 p2 ns cl h'])
qed

lemma dropWhile_append_stop:
  "\<not> P c \<Longrightarrow> dropWhile P (xs @ c # ys) = dropWhile P xs @ c # ys"
  by (induction xs) auto

lemma strip_no_trailing_space:
  assumes "b = [] \<or> \<not> py_isspace (last b)"
  shows "strip b = dropWhile py_isspace b"
proof -
  let ?d = "dropWhile py_isspace b"
  have "?d = [] \<or> \<not> py_isspace (last ?d)"
  proof (cases "?d = []")
    case True
    then show ?thesis by simp
  next
    case False
    then have "b \<noteq> []" by auto
    with assms last_dropWhile_eq [OF False] show ?thesis by simp
  qed
  then have "?d = [] \<or> \<not> py_isspace (hd (rev ?d))" by (auto simp: hd_rev)
  then have "dropWhile py_isspace (rev ?d) = rev ?d"
    by (auto simp: dropWhile_eq_self_iff)
  then show ?thesis by (simp add: strip_def)
qed

lemma strip_append_stop:
  assumes "b = [] \<or> \<not> py_isspace (last b)" and "\<not> py_isspace c"
  shows "strip (b @ c # f) = strip b @ c # rev (dropWhile py_isspace (rev f))"
proof -
  have "strip (b @ c # f) =
          rev (dropWhile py_isspace (rev f @ c # rev (dropWhile py_isspace b)))"
    using assms(2) by (simp add: strip_def dropWhile_append_stop)
  also have "\<dots> = dropWhile py_isspace b @ c # rev (dropWhile py_isspace (rev f))"
    using assms(2) by (simp add: dropWhile_append_stop)
  finally show ?thesis by (simp add: strip_no_trailing_space [OF assms(1)])
qed

lemma clean_url_append_stop:
  assumes "\<not> c0_control_or_space c"
  shows "clean_url lib (x @ c # f) = clean_url lib x @ c # filter (\<lambda>c. \<not> unsafe_url_byte c) f"
proof -
  have "\<not> unsafe_url_byte c" using assms unsafe_imp_c0 by blast
  then show ?thesis using assms by (simp add: clean_url_def dropWhile_append_stop)
qed

lemma has_scheme_append_delim:
  assumes "netloc_delim c"
  shows "has_scheme (x @ c # g) \<longleftrightarrow> has_scheme x"
proof
  assume "has_scheme x"
  then show "has_scheme (x @ c # g)" by (rule has_scheme_append)
next
  assume h: "has_scheme (x @ c # g)"
  have cc: "c \<noteq> CHR '':''" using assms by (auto simp: netloc_delim_def)
  show "has_scheme x"
  proof (cases "CHR '':'' \<in> set x")
    case True
    then have tw: "takeWhile (\<lambda>c. c \<noteq> CHR '':'') (x @ c # g) = takeWhile (\<lambda>c. c \<noteq> CHR '':'') x"
      by (intro takeWhile_append1 [where x = "CHR '':''"]) auto
    from True have "x \<noteq> []" by auto
    then have "hd (x @ c # g) = hd x" by simp
    with h tw True show ?thesis by (simp add: has_scheme_def Let_def)
  next
    case False
    then have "takeWhile (\<lambda>c. c \<noteq> CHR '':'') (x @ c # g) =
                 x @ c # takeWhile (\<lambda>c. c \<noteq> CHR '':'') g"
      using cc by (subst takeWhile_append2) auto
    with h have "scheme_char c" by (simp add: has_scheme_def Let_def)
    with assms show ?thesis using delim_not_scheme_char by blast
  qed
qed

lemma split_scheme_append_delim:
  assumes "netloc_delim c" and "split_scheme x = (s, r)"
  shows "split_scheme (x @ c # g) = (s, r @ c # g)"
proof (cases "has_scheme x")
  case False
  then show ?thesis
    using assms by (simp add: split_scheme_def has_scheme_append_delim [OF assms(1)])
next
  case True
  then have colon: "CHR '':'' \<in> set x" by (simp add: has_scheme_def Let_def)
  then have tw: "takeWhile (\<lambda>c. c \<noteq> CHR '':'') (x @ c # g) = takeWhile (\<lambda>c. c \<noteq> CHR '':'') x"
    by (intro takeWhile_append1 [where x = "CHR '':''"]) auto
  have dw: "dropWhile (\<lambda>c. c \<noteq> CHR '':'') (x @ c # g) =
              dropWhile (\<lambda>c. c \<noteq> CHR '':'') x @ c # g"
    using colon by (intro dropWhile_append1 [where x = "CHR '':''"]) auto
  have "dropWhile (\<lambda>c. c \<noteq> CHR '':'') x \<noteq> []" using colon by (simp add: dropWhile_eq_Nil_conv)
  then have "tl (dropWhile (\<lambda>c. c \<noteq> CHR '':'') x @ c # g) =
               tl (dropWhile (\<lambda>c. c \<noteq> CHR '':'') x) @ c # g" by simp
  then show ?thesis
    using assms True
    by (simp add: split_scheme_def has_scheme_append_delim [OF assms(1)] tw dw)
qed

lemma path_of_append_delim:
  assumes "netloc_delim c" and "c = CHR ''/'' \<longrightarrow> g = []"
  shows "rstrip_slash (path_of (u @ c # g)) = rstrip_slash (path_of u)"
proof (cases "c = CHR ''/''")
  case False
  with assms(1) have "\<not> (c \<noteq> CHR ''#'' \<and> c \<noteq> CHR ''?'')" by (auto simp: netloc_delim_def)
  then have "path_of (u @ c # g) = path_of u"
    unfolding path_of_takeWhile by (rule takeWhile_tail)
  then show ?thesis by simp
next
  case True
  with assms(2) have g: "g = []" by simp
  show ?thesis
  proof (cases "\<forall>x \<in> set u. x \<noteq> CHR ''#'' \<and> x \<noteq> CHR ''?''")
    case True
    then have "path_of (u @ ''/'') = u @ ''/''" "path_of u = u"
      by (simp_all add: path_of_takeWhile takeWhile_append2)
    then show ?thesis using g \<open>c = CHR ''/''\<close> by (simp add: rstrip_slash_append_slash)
  next
    case False
    then obtain x where "x \<in> set u" "\<not> (x \<noteq> CHR ''#'' \<and> x \<noteq> CHR ''?'')" by blast
    then have "path_of (u @ c # g) = path_of u"
      unfolding path_of_takeWhile by (rule takeWhile_append1)
    then show ?thesis by simp
  qed
qed

lemma splitnetloc_append_delim:
  assumes "netloc_delim c" and "take 2 r = ''//''"
  shows "splitnetloc (r @ c # g) = (fst (splitnetloc r), snd (splitnetloc r) @ c # g)"
proof -
  have "2 \<le> length r" using assms(2) by (cases r; cases "tl r") auto
  then have d: "drop 2 (r @ c # g) = drop 2 r @ c # g" by simp
  have "\<not> \<not> netloc_delim c" using assms(1) by simp
  then show ?thesis
    unfolding splitnetloc_def d
    by (simp add: takeWhile_tail dropWhile_append_stop)
qed

lemma take2_append_delim:
  assumes "take 2 r \<noteq> ''//''" and "r \<noteq> ''/'' \<or> c \<noteq> CHR ''/''"
    and "c = CHR ''/'' \<longrightarrow> g = []"
  shows "take 2 (r @ c # g) \<noteq> ''//''"
proof (cases r)
  case Nil
  then show ?thesis using assms(3) by (cases g) auto
next
  case (Cons a r')
  then show ?thesis using assms by (cases r') auto
qed

lemma netloc_append_delim:
  assumes d: "netloc_delim c" and g: "c = CHR ''/'' \<longrightarrow> g = []"
    and a: "(if take 2 r = ''//'' then splitnetloc r else ([], r)) = (n, u)"
    and b: "(if take 2 (r @ c # g) = ''//'' then splitnetloc (r @ c # g) else ([], r @ c # g))
              = (n', u')"
  shows "n' = n \<and> rstrip_slash (path_of u') = rstrip_slash (path_of u)"
proof (cases "take 2 r = ''//''")
  case True
  then have "take 2 (r @ c # g) = ''//''" by (cases r; cases "tl r") auto
  with a b True splitnetloc_append_delim [OF d True, of g]
  have "n' = n" "u' = u @ c # g" by auto
  then show ?thesis using path_of_append_delim [OF d g] by simp
next
  case False
  show ?thesis
  proof (cases "r = ''/'' \<and> c = CHR ''/''")
    case True
    with g have "r @ c # g = ''//''" by simp
    with b have "n' = []" "u' = []" by (simp_all add: splitnetloc_def)
    moreover from a True have "n = []" "u = ''/''" by auto
    ultimately show ?thesis by (simp add: path_of_takeWhile rstrip_slash_def)
  next
    case no: False
    then have "take 2 (r @ c # g) \<noteq> ''//''" using take2_append_delim [OF False _ g] by blast
    with a b False have "n' = n" "u' = u @ c # g" by auto
    then show ?thesis using path_of_append_delim [OF d g] by simp
  qed
qed

lemma canonical_of_append_delim:
  assumes d: "netloc_delim c" and f: "c = CHR ''/'' \<longrightarrow> f = []"
  shows "canonical_of lib (t @ c # f) = canonical_of lib t"
proof -
  let ?g = "filter (\<lambda>c. \<not> unsafe_url_byte c) f"
  have g: "c = CHR ''/'' \<longrightarrow> ?g = []" using f by simp
  have cl: "clean_url lib (t @ c # f) = clean_url lib t @ c # ?g"
    by (rule clean_url_append_stop [OF delim_not_c0 [OF d]])
  obtain s r where sp: "split_scheme (clean_url lib t) = (s, r)" by (cases "split_scheme (clean_url lib t)")
  have sp': "split_scheme (clean_url lib t @ c # ?g) = (s, r @ c # ?g)"
    by (rule split_scheme_append_delim [OF d sp])
  obtain n u where a: "(if take 2 r = ''//'' then splitnetloc r else ([], r)) = (n, u)"
    by (cases "if take 2 r = ''//'' then splitnetloc r else ([], r)")
  obtain n' u' where
    b: "(if take 2 (r @ c # ?g) = ''//'' then splitnetloc (r @ c # ?g) else ([], r @ c # ?g))
          = (n', u')"
    by (cases "if take 2 (r @ c # ?g) = ''//'' then splitnetloc (r @ c # ?g) else ([], r @ c # ?g)")
  note nl = netloc_append_delim [OF d g a b]
  have p: "parse_url lib t = (s, n, u)" unfolding parse_url_def sp Let_def prod.case a by simp
  have p': "parse_url lib (t @ c # f) = (s, n', u')"
    unfolding parse_url_def cl sp' Let_def prod.case b by simp
  show ?thesis unfolding canonical_of_def p p' using nl by (simp split: option.splits)
qed

lemma canonicalize_url_append_delim:
  assumes "b = [] \<or> \<not> py_isspace (last b)" and d: "netloc_delim c"
    and f: "c = CHR ''/'' \<longrightarrow> f = []"
  shows "canonicalize_url lib (Str (b @ c # f)) = canonicalize_url lib (Str b)"
proof -
  have "c = CHR ''/'' \<longrightarrow> rev (dropWhile py_isspace (rev f)) = []" using f by simp
  then show ?thesis
    unfolding canonicalize_url_canonical_of strip_append_stop [OF assms(1) delim_not_space [OF d]]
    by (rule canonical_of_append_delim [OF d])
qed

lemma canonicalize_url_fixed:
  assumes ok: "\<And>n. netloc_ok lib n \<Longrightarrow> netloc_ok lib (lower n)"
    and c: "canonicalize_url lib (Str u) = Inr v" and s: "strip v = v"
    and h: "patched_urlunsplit lib \<or>
            (\<exists>parts. urlsplit lib (strip u) = Inr parts \<and>
               (url_netloc parts \<noteq> [] \<or> take 2 (rstrip_slash (url_path parts)) \<noteq> ''//''))"
  shows "canonicalize_url lib (Str v) = Inr v"
proof -
  obtain s n r where parse: "parse_url lib (strip u) = (s, n, r)"
    by (cases "parse_url lib (strip u)") auto
  from c have co: "canonical_of lib (strip u) = Inr v"
    by (simp only: canonicalize_url_canonical_of)
  have h': "patched_urlunsplit lib \<or> n \<noteq> [] \<or> take 2 (rstrip_slash (path_of r)) \<noteq> ''//''"
    using h by (auto simp: urlsplit_parts parse split: option.splits)
  have "canonical_of lib v = Inr v"
    by (rule canonical_of_idempotent [OF ok co parse h'])
  then show ?thesis by (simp only: canonicalize_url_canonical_of s)
qed

lemma py_lower_space: "py_isspace (py_lower c) \<Longrightarrow> py_isspace c"
  by (auto simp: py_isspace_def py_lower_code Let_def split: if_splits)

lemma clean_url_set: "set (clean_url lib t) \<subseteq> set t"
  by (auto simp: clean_url_def dest: set_dropWhileD)

lemma split_scheme_chars:
  assumes "split_scheme x = (s, r)"
  shows "set s \<subseteq> py_lower ` set x"
  using assms
  by (auto simp: split_scheme_def lower_def split: if_splits dest!: set_takeWhileD)

lemma urlunsplit_chars:
  "set (urlunsplit lib s n p [] []) \<subseteq> set s \<union> set n \<union> set p \<union> {CHR '':'', CHR ''/''}"
  by (auto simp: urlunsplit_def Let_def split: if_splits)

lemma canonical_of_no_space:
  assumes c: "canonical_of lib t = Inr v" and t: "\<forall>c \<in> set t. \<not> py_isspace c"
  shows "\<forall>c \<in> set v. \<not> py_isspace c"
proof -
  obtain s n u where parse: "parse_url lib t = (s, n, u)" by (cases "parse_url lib t") auto
  obtain s' r where sp: "split_scheme (clean_url lib t) = (s', r)"
    by (cases "split_scheme (clean_url lib t)")
  have s': "s' = s" and nu: "(n, u) = (if take 2 r = ''//'' then splitnetloc r else ([], r))"
    using parse by (simp_all add: parse_url_def sp)
  from c parse have v: "v = urlunsplit lib s (lower n) (rstrip_slash (path_of u)) [] []"
    by (auto simp: canonical_of_def split: option.splits)
  have x: "\<forall>c \<in> set (clean_url lib t). \<not> py_isspace c" using t clean_url_set by blast
  have r: "set r \<subseteq> set (clean_url lib t)" by (rule split_scheme_facts(3) [OF sp])
  have sub: "set n \<subseteq> set r" "set u \<subseteq> set r"
    using nu splitnetloc_set [of r] by (auto split: if_splits simp: prod_eq_iff)
  have 1: "\<forall>c \<in> set s. \<not> py_isspace c"
    using split_scheme_chars [OF sp] s' x py_lower_space by blast
  have 2: "\<forall>c \<in> set (lower n). \<not> py_isspace c"
    using sub(1) r x py_lower_space by (auto simp: lower_def)
  have "set (rstrip_slash (path_of u)) \<subseteq> set u"
    using rstrip_slash_set [of "path_of u"] path_of_set [of _ u] by auto
  then have 3: "\<forall>c \<in> set (rstrip_slash (path_of u)). \<not> py_isspace c"
    using sub(2) r x by blast
  have 4: "\<not> py_isspace CHR '':''" "\<not> py_isspace CHR ''/''" by (simp_all add: py_isspace_def)
  show ?thesis
  proof
    fix c assume "c \<in> set v"
    then have "c \<in> set s \<union> set (lower n) \<union> set (rstrip_slash (path_of u)) \<union> {CHR '':'', CHR ''/''}"
      using urlunsplit_chars unfolding v by blast
    then show "\<not> py_isspace c" using 1 2 3 4 by auto
  qed
qed

lemma strip_no_space:
  assumes "\<forall>c \<in> set v. \<not> py_isspace c"
  shows "strip v = v"
proof (cases "v = []")
  case True
  then show ?thesis by (simp add: strip_def)
next
  case False
  then have "hd v \<in> set v" "last v \<in> set v" by simp_all
  with assms show ?thesis by (intro strip_fixed) auto
qed

lemma canonicalize_url_no_space:
  assumes "canonicalize_url lib (Str u) = Inr v" and "\<forall>c \<in> set u. \<not> py_isspace c"
  shows "strip v = v"
proof -
  have "strip u = u" by (rule strip_no_space [OF assms(2)])
  with assms(1) have "canonical_of lib u = Inr v"
    by (simp only: canonicalize_url_canonical_of)
  then show ?thesis using canonical_of_no_space [OF _ assms(2)] strip_no_space by blast
qed

text \<open>
  Claim C6, as amended.  Let the test that the standard library applies to a bracketed
  network location be insensitive to lowering it.  Canonicalising is idempotent on every
  string whose canonical form has no leading or trailing whitespace (in particular on
  every string without whitespace), provided that \<^verbatim>\<open>urlunsplit\<close> is the patched one, or
  that the string has a network location, or that its path without the trailing slashes
  does not begin with two slashes: the canonical form is then its own canonical form.
  And under every standard library, for every string \<open>b\<close> that does not end in
  whitespace, \<open>b\<close> followed by a slash, by a query string or by a fragment has the
  outcome of \<open>b\<close> itself (the same canonical form, or the same error).
\<close>

theorem canonicalize_url_idempotent_invariant:
  assumes ok: "\<And>n. netloc_ok lib n \<Longrightarrow> netloc_ok lib (lower n)"
  shows "(canonicalize_url lib (Str u) = Inr v \<and>
            (strip v = v \<or> (\<forall>c \<in> set u. \<not> py_isspace c)) \<and>
            (patched_urlunsplit lib \<or>
             (\<exists>parts. urlsplit lib (strip u) = Inr parts \<and>
                (url_netloc parts \<noteq> [] \<or>
                 take 2 (rstrip_slash (url_path parts)) \<noteq> ''//''))) \<longrightarrow>
          canonicalize_url lib (Str v) = Inr v) \<and>
         (b = [] \<or> \<not> py_isspace (last b) \<longrightarrow>
            canonicalize_url lib (Str (b @ ''/'')) = canonicalize_url lib (Str b) \<and>
            canonicalize_url lib (Str (b @ ''?'' @ q)) = canonicalize_url lib (Str b) \<and>
            canonicalize_url lib (Str (b @ ''#'' @ f)) = canonicalize_url lib (Str b))"
proof (intro conjI impI)
  assume a: "canonicalize_url lib (Str u) = Inr v \<and>
               (strip v = v \<or> (\<forall>c \<in> set u. \<not> py_isspace c)) \<and>
               (patched_urlunsplit lib \<or>
                (\<exists>parts. urlsplit lib (strip u) = Inr parts \<and>
                   (url_netloc parts \<noteq> [] \<or>
                    take 2 (rstrip_slash (url_path parts)) \<noteq> ''//'')))"
  then have c: "canonicalize_url lib (Str u) = Inr v" by simp
  from a have s: "strip v = v" using canonicalize_url_no_space by blast
  from a have h: "patched_urlunsplit lib \<or>
                (\<exists>parts. urlsplit lib (strip u) = Inr parts \<and>
                   (url_netloc parts \<noteq> [] \<or>
                    take 2 (rstrip_slash (url_path parts)) \<noteq> ''//''))" by simp
  show "canonicalize_url lib (Str v) = Inr v"
    by (rule canonicalize_url_fixed [OF ok c s h])
next
  assume b: "b = [] \<or> \<not> py_isspace (last b)"
  show "canonicalize_url lib (Str (b @ ''/'')) = canonicalize_url lib (Str b)"
    using canonicalize_url_append_delim [OF b, of "CHR ''/''" "[]"]
    by (simp add: netloc_delim_def)
  show "canonicalize_url lib (Str (b @ ''?'' @ q)) = canonicalize_url lib (Str b)"
    using canonicalize_url_append_delim [OF b, of "CHR ''?''" q]
    by (simp add: netloc_delim_def)
  show "canonicalize_url lib (Str (b @ ''#'' @ f)) = canonicalize_url lib (Str b)"
    using canonicalize_url_append_delim [OF b, of "CHR ''#''" f]
    by (simp add: netloc_delim_def)
qed

text \<open>
  The theorem under CPython 3.11.2, at \<^verbatim>\<open>HTTP://Example.com/a/\<close> (which has a network
  location) and at the base \<^verbatim>\<open>http://example.com/a\<close>.
\<close>

theorem canonicalize_url_idempotent_invariant_witness:
  "canonicalize_url cpython_3_11_2 (Str ''HTTP://Example.com/a/'') =
     Inr ''http://example.com/a'' \<and>
   strip ''http://example.com/a'' = ''http://example.com/a'' \<and>
   urlsplit cpython_3_11_2 (strip ''HTTP://Example.com/a/'') =
     Inr \<lparr>url_scheme = ''http'', url_netloc = ''Example.com'', url_path = ''/a/'',
          url_query = [], url_fragment = []\<rparr> \<and>
   canonicalize_url cpython_3_11_2 (Str ''http://example.com/a'') =
     Inr ''http://example.com/a'' \<and>
   \<not> py_isspace (last ''http://example.com/a'') \<and>
   canonicalize_url cpython_3_11_2 (Str (''http://example.com/a'' @ ''/'')) =
     canonicalize_url cpython_3_11_2 (Str ''http://example.com/a'') \<and>
   canonicalize_url cpython_3_11_2 (Str (''http://example.com/a'' @ ''?'' @ ''x=1'')) =
     canonicalize_url cpython_3_11_2 (Str ''http://example.com/a'') \<and>
   canonicalize_url cpython_3_11_2 (Str (''http://example.com/a'' @ ''#'' @ ''top'')) =
     canonicalize_url cpython_3_11_2 (Str ''http://example.com/a'')"
proof -
  have ok: "\<And>n. netloc_ok cpython_3_11_2 n \<Longrightarrow> netloc_ok cpython_3_11_2 (lower n)"
    by (simp add: cpython_3_11_2_def accept_netloc_def)
  have c: "canonicalize_url cpython_3_11_2 (Str ''HTTP://Example.com/a/'') =
             Inr ''http://example.com/a''"
    by code_simp
  have s: "strip ''http://example.com/a'' = ''http://example.com/a''" by code_simp
  have p: "urlsplit cpython_3_11_2 (strip ''HTTP://Example.com/a/'') =
             Inr \<lparr>url_scheme = ''http'', url_netloc = ''Example.com'', url_path = ''/a/'',
                  url_query = [], url_fragment = []\<rparr>"
    by code_simp
  have l: "\<not> py_isspace (last ''http://example.com/a'')" by code_simp
  have h: "\<exists>parts. urlsplit cpython_3_11_2 (strip ''HTTP://Example.com/a/'') = Inr parts \<and>
             (url_netloc parts \<noteq> [] \<or> take 2 (rstrip_slash (url_path parts)) \<noteq> ''//'')"
    unfolding p by simp
  from canonicalize_url_idempotent_invariant
         [of cpython_3_11_2 "''HTTP://Example.com/a/''" "''http://example.com/a''"
            "''http://example.com/a''" "''x=1''" "''top''", OF ok] c s l h
  have "canonicalize_url cpython_3_11_2 (Str ''http://example.com/a'') =
          Inr ''http://example.com/a'' \<and>
        canonicalize_url cpython_3_11_2 (Str (''http://example.com/a'' @ ''/'')) =
          canonicalize_url cpython_3_11_2 (Str ''http://example.com/a'') \<and>
        canonicalize_url cpython_3_11_2 (Str (''http://example.com/a'' @ ''?'' @ ''x=1'')) =
          canonicalize_url cpython_3_11_2 (Str ''http://example.com/a'') \<and>
        canonicalize_url cpython_3_11_2 (Str (''http://example.com/a'' @ ''#'' @ ''top'')) =
          canonicalize_url cpython_3_11_2 (Str ''http://example.com/a'')"
    by blast
  with c s p l show ?thesis by blast
qed

text \<open>
  The claim as stated fails in two ways.  Where whitespace sits before a final slash or a
  query: the slash is removed after the string was trimmed, so the canonical form of
  \<^verbatim>\<open>http://example.com/x /\<close> ends in a space and is not its own canonical form; and
  \<^verbatim>\<open>http://example.com/x \<close> and \<^verbatim>\<open>http://example.com/x ?q=1\<close>, which differ by the query
  string only, have different canonical forms.  And under the older \<^verbatim>\<open>urlunsplit\<close> (here
  CPython 3.11.2), where the network location is empty and the path begins with two
  slashes: the canonical form of \<^verbatim>\<open>http:////X/Y\<close> is \<^verbatim>\<open>http://X/Y\<close>, in which \<^verbatim>\<open>X\<close> has become
  the network location, and the canonical form of that is \<^verbatim>\<open>http://x/Y\<close>.  The patched
  \<^verbatim>\<open>urlunsplit\<close> (CPython 3.11.10) keeps the four slashes.
\<close>

theorem canonicalize_url_counterexample:
  "canonicalize_url cpython_3_11_2 (Str ''http://example.com/x /'') =
     Inr ''http://example.com/x '' \<and>
   canonicalize_url cpython_3_11_2 (Str ''http://example.com/x '') =
     Inr ''http://example.com/x'' \<and>
   canonicalize_url cpython_3_11_2 (Str ''http://example.com/x ?q=1'') =
     Inr ''http://example.com/x '' \<and>
   canonicalize_url cpython_3_11_10 (Str ''http://example.com/x /'') =
     Inr ''http://example.com/x '' \<and>
   canonicalize_url cpython_3_11_10 (Str ''http://example.com/x '') =
     Inr ''http://example.com/x'' \<and>
   canonicalize_url cpython_3_11_2 (Str ''http:////X/Y'') = Inr ''http://X/Y'' \<and>
   canonicalize_url cpython_3_11_2 (Str ''http://X/Y'') = Inr ''http://x/Y'' \<and>
   canonicalize_url cpython_3_11_10 (Str ''http:////X/Y'') = Inr ''http:////X/Y''"
  by code_simp

end
